theory Spec2Isabelle
  imports Main "HOL-Library.Word" "HOL-Library.Log_Nat" "HOL-Library.Signed_Division"
begin

section \<open>Floating-point arithmetic of the heatmap\<close>

text \<open>
  The heatmap computes \<open>numYBuckets\<close> in \<open>float64\<close> and the saturations, the pixel steps
  and the hovered bucket in \<open>float32\<close>. Both are IEEE 754 binary formats with round to
  nearest, ties to even; they differ in the precision \<open>p\<close> (53 and 24 significant bits).
  A finite value is the rational it denotes. The exponent range is not modelled: every
  quantity the heatmap rounds is a quotient, product or difference built from integers
  below \<open>2^63\<close> and from pointer coordinates, and the only results the program reads are
  their integer parts, so neither overflow nor gradual underflow changes what is read.
  Zeros are unsigned: every zero the program divides by is converted from the integer 0
  and therefore positive.
\<close>

definition rne :: "rat \<Rightarrow> int" where
  "rne x = (let f = \<lfloor>x\<rfloor>; d = x - of_int f in
     if d < 1/2 then f else if 1/2 < d then f + 1 else if even f then f else f + 1)"

definition ilog2 :: "rat \<Rightarrow> int" where
  "ilog2 q = (let (a, b) = quotient_of q; d = bitlen a - bitlen b in
     if 2 powi d \<le> q then d else d - 1)"

definition fl_round :: "nat \<Rightarrow> rat \<Rightarrow> rat" where
  "fl_round p q = (if q = 0 then 0 else
     let u = 2 powi (ilog2 \<bar>q\<bar> - (int p - 1)) in sgn q * of_int (rne (\<bar>q\<bar> / u)) * u)"

datatype fp = Fin rat | PInf | NInf | NaN

definition fp_of_int :: "nat \<Rightarrow> int \<Rightarrow> fp" where
  "fp_of_int p n = Fin (fl_round p (of_int n))"

fun fp_div :: "nat \<Rightarrow> fp \<Rightarrow> fp \<Rightarrow> fp" where
  "fp_div p (Fin a) (Fin b) =
     (if b = 0 then (if a = 0 then NaN else if 0 < a then PInf else NInf)
      else Fin (fl_round p (a / b)))"
| "fp_div p (Fin a) PInf = Fin 0"
| "fp_div p (Fin a) NInf = Fin 0"
| "fp_div p PInf (Fin b) = (if 0 \<le> b then PInf else NInf)"
| "fp_div p NInf (Fin b) = (if 0 \<le> b then NInf else PInf)"
| "fp_div p _ _ = NaN"

fun fp_mul :: "nat \<Rightarrow> fp \<Rightarrow> fp \<Rightarrow> fp" where
  "fp_mul p (Fin a) (Fin b) = Fin (fl_round p (a * b))"
| "fp_mul p (Fin a) PInf = (if a = 0 then NaN else if 0 < a then PInf else NInf)"
| "fp_mul p (Fin a) NInf = (if a = 0 then NaN else if 0 < a then NInf else PInf)"
| "fp_mul p PInf (Fin b) = (if b = 0 then NaN else if 0 < b then PInf else NInf)"
| "fp_mul p NInf (Fin b) = (if b = 0 then NaN else if 0 < b then NInf else PInf)"
| "fp_mul p PInf PInf = PInf"
| "fp_mul p NInf NInf = PInf"
| "fp_mul p PInf NInf = NInf"
| "fp_mul p NInf PInf = NInf"
| "fp_mul p _ _ = NaN"

fun fp_sub :: "nat \<Rightarrow> fp \<Rightarrow> fp \<Rightarrow> fp" where
  "fp_sub p (Fin a) (Fin b) = Fin (fl_round p (a - b))"
| "fp_sub p (Fin a) PInf = NInf"
| "fp_sub p (Fin a) NInf = PInf"
| "fp_sub p PInf (Fin b) = PInf"
| "fp_sub p NInf (Fin b) = NInf"
| "fp_sub p PInf NInf = PInf"
| "fp_sub p NInf PInf = NInf"
| "fp_sub p _ _ = NaN"

text \<open>Comparisons: every comparison with a NaN is false.\<close>

fun fp_less :: "fp \<Rightarrow> fp \<Rightarrow> bool" where
  "fp_less (Fin a) (Fin b) = (a < b)"
| "fp_less (Fin a) PInf = True"
| "fp_less NInf (Fin b) = True"
| "fp_less NInf PInf = True"
| "fp_less _ _ = False"

fun fp_le :: "fp \<Rightarrow> fp \<Rightarrow> bool" where
  "fp_le (Fin a) (Fin b) = (a \<le> b)"
| "fp_le NaN _ = False"
| "fp_le _ NaN = False"
| "fp_le _ PInf = True"
| "fp_le NInf _ = True"
| "fp_le _ _ = False"

text \<open>\<open>math.Ceil\<close>: the infinities and NaN are returned unchanged.\<close>

fun fp_ceil :: "fp \<Rightarrow> fp" where
  "fp_ceil (Fin q) = Fin (of_int \<lceil>q\<rceil>)"
| "fp_ceil f = f"

text \<open>
  Conversion of a floating-point value to an integer type discards the fraction. When the
  truncated value does not fit the target type, or the value is not finite, Go leaves the
  result implementation-dependent: the model returns \<open>None\<close> there.
\<close>

definition trunc :: "rat \<Rightarrow> int" where
  "trunc q = (if 0 \<le> q then \<lfloor>q\<rfloor> else \<lceil>q\<rceil>)"

definition int_of_fp :: "fp \<Rightarrow> int option" where
  "int_of_fp f = (case f of
       Fin q \<Rightarrow> (let t = trunc q in if - (2 ^ 63) \<le> t \<and> t < 2 ^ 63 then Some t else None)
     | _ \<Rightarrow> None)"

definition uint8_of_fp :: "fp \<Rightarrow> 8 word option" where
  "uint8_of_fp f = (case f of
       Fin q \<Rightarrow> (let t = trunc q in if 0 \<le> t \<and> t \<le> 255 then Some (word_of_int t) else None)
     | _ \<Rightarrow> None)"

section \<open>Data model\<close>

text \<open>
  \<open>image.Point\<close> is an \<open>int Point\<close>, \<open>f32.Point\<close> an \<open>fp Point\<close>. Go's \<open>int\<close> and
  \<open>time.Duration\<close> are modelled as unbounded integers: the indices are bounded by slice
  lengths and no property below depends on 64-bit wrap-around.
\<close>

record 'a Point =
  X :: 'a
  Y :: 'a

record heatmapCacheKey =
  sizeK :: "int Point"
  useLinearColors :: bool
  yBucketSize :: int
  xBucketSize :: int

record HeatmapBucket =
  XStart :: int
  XEnd :: int
  YStart :: int
  YEnd :: int
  Count :: int

text \<open>
  What is recorded into an \<open>op.Ops\<close> list. A path is the list of the rectangles appended to
  it, each with its four rounded pixel coordinates \<open>(xStart, yStart, xEnd, yEnd)\<close>.
\<close>

type_synonym rect = "fp \<times> fp \<times> fp \<times> fp"

type_synonym NRGBA = "8 word \<times> 8 word \<times> 8 word \<times> 8 word"

datatype drawop =
    ClipRectPush "int Point"
  | ThemeFillWhite
  | EventOp
  | FillShape NRGBA "rect list"
  | ClipPop
  | CallMacro "drawop list"
  | HoverOutline rect

record Heatmap =
  MaxY :: int
  UseLinearColors :: bool
  XBucketSize :: int
  YBucketSize :: int
  numXBuckets :: int
  numYBuckets :: int
  data :: "int list"
  origData :: "int list list"
  pointer :: "fp Point"
  pointerConstraint :: "int Point"
  hovered :: HeatmapBucket
  cacheKey :: heatmapCacheKey
  cachedMacro :: "drawop list"
  linearSaturations :: "8 word list"
  rankedSaturations :: "8 word list"

text \<open>The run-time panics of the code, and the implementation-dependent conversions.\<close>

datatype error =
    IndexOutOfRange
  | DivideByZero
  | NegativeLen
  | CouldntFindBucket
  | ImplementationDependent

section \<open>computeBuckets\<close>

text \<open>\<open>int(math.Ceil(float64(hm.MaxY) / float64(hm.YBucketSize)))\<close>\<close>

definition numYBucketsOf :: "int \<Rightarrow> int \<Rightarrow> int option" where
  "numYBucketsOf maxY ybs = int_of_fp (fp_ceil (fp_div 53 (fp_of_int 53 maxY) (fp_of_int 53 ybs)))"

text \<open>
  The bin of one sample \<open>y\<close>: \<open>y / hm.YBucketSize\<close> (Go's division truncates and panics on a
  zero divisor), clamped to the last bucket.
\<close>

definition yBin :: "int \<Rightarrow> int \<Rightarrow> int \<Rightarrow> error + int" where
  "yBin ybs ny y =
     (if ybs = 0 then Inl DivideByZero
      else let bin = y sdiv ybs in Inr (if bin \<ge> ny then ny - 1 else bin))"

text \<open>The inner loop \<open>for i, y := range xBuckets\<close>, from index \<open>i\<close> on.\<close>

fun bucketLoop :: "int \<Rightarrow> int \<Rightarrow> nat \<Rightarrow> int list \<Rightarrow> int list \<Rightarrow> error + int list" where
  "bucketLoop ybs ny i [] d = Inr d"
| "bucketLoop ybs ny i (y # ys) d =
     (case yBin ybs ny y of
        Inl e \<Rightarrow> Inl e
      | Inr bin \<Rightarrow>
          (let idx = int i * ny + bin in
           if idx < 0 \<or> int (length d) \<le> idx then Inl IndexOutOfRange
           else bucketLoop ybs ny (Suc i) ys (d[nat idx := d ! nat idx + 1])))"

text \<open>The outer loop \<open>for _, xBuckets := range hm.origData\<close>.\<close>

fun sourcesLoop :: "int \<Rightarrow> int \<Rightarrow> int list list \<Rightarrow> int list \<Rightarrow> error + int list" where
  "sourcesLoop ybs ny [] d = Inr d"
| "sourcesLoop ybs ny (xBuckets # rest) d =
     (case bucketLoop ybs ny 0 xBuckets d of
        Inl e \<Rightarrow> Inl e
      | Inr d' \<Rightarrow> sourcesLoop ybs ny rest d')"

definition computeBuckets :: "Heatmap \<Rightarrow> error + Heatmap" where
  "computeBuckets hm =
     (case numYBucketsOf (MaxY hm) (YBucketSize hm) of
        None \<Rightarrow> Inl ImplementationDependent
      | Some ny \<Rightarrow>
          if numXBuckets hm * ny < 0 then Inl NegativeLen
          else (case sourcesLoop (YBucketSize hm) ny (origData hm)
                       (replicate (nat (numXBuckets hm * ny)) 0) of
                  Inl e \<Rightarrow> Inl e
                | Inr d \<Rightarrow> Inr (hm\<lparr>numYBuckets := ny, data := d\<rparr>)))"

section \<open>computeSaturations\<close>

text \<open>The deduplication loop over the sorted copy, with \<open>prev\<close> the last value kept.\<close>

fun dedup :: "int \<Rightarrow> int list \<Rightarrow> int list" where
  "dedup prev [] = []"
| "dedup prev (v # vs) = (if v = prev then dedup prev vs else v # dedup v vs)"

text \<open>
  \<open>sort.SearchInts(a, x)\<close> is \<open>sort.Search(len(a), func(i) { return a[i] >= x })\<close>, the
  standard library's binary search between \<open>i\<close> and \<open>j\<close>.
\<close>

function search :: "int list \<Rightarrow> int \<Rightarrow> nat \<Rightarrow> nat \<Rightarrow> nat" where
  "search a x i j =
     (if i < j then
        (let h = (i + j) div 2 in
         if \<not> (a ! h \<ge> x) then search a x (h + 1) j else search a x i h)
      else i)"
  by pat_completeness auto
termination
  by (relation "measure (\<lambda>(a, x, i, j). j - i)") auto

declare search.simps [simp del]

definition SearchInts :: "int list \<Rightarrow> int \<Rightarrow> nat" where
  "SearchInts a x = search a x 0 (length a)"

text \<open>\<open>s := uint8(0xFF * (float32(satIdx+1) / float32(len(unique))))\<close>, then the clamp.\<close>

definition rankedSaturation :: "nat \<Rightarrow> nat \<Rightarrow> error + 8 word" where
  "rankedSaturation satIdx n =
     (case uint8_of_fp (fp_mul 24 (Fin 255)
             (fp_div 24 (fp_of_int 24 (int satIdx + 1)) (fp_of_int 24 (int n)))) of
        None \<Rightarrow> Inl ImplementationDependent
      | Some s \<Rightarrow> Inr (if s = 0 then 1 else s))"

text \<open>\<open>s = uint8(0xFF * (float32(v) / float32(sorted[len(sorted)-1])))\<close>, then the clamp.\<close>

definition linearSaturation :: "int \<Rightarrow> int \<Rightarrow> error + 8 word" where
  "linearSaturation v mx =
     (case uint8_of_fp (fp_mul 24 (Fin 255)
             (fp_div 24 (fp_of_int 24 v) (fp_of_int 24 mx))) of
        None \<Rightarrow> Inl ImplementationDependent
      | Some s \<Rightarrow> Inr (if s = 0 then 1 else s))"

text \<open>
  The loop \<open>for i, v := range hm.data\<close>: it returns the ranked and the linear table, filled
  in the order of the cells.
\<close>

fun satLoop :: "int list \<Rightarrow> int \<Rightarrow> int list \<Rightarrow> error + (8 word list \<times> 8 word list)" where
  "satLoop unique mx [] = Inr ([], [])"
| "satLoop unique mx (v # vs) =
     (let satIdx = SearchInts unique v in
      if satIdx = length unique then Inl CouldntFindBucket
      else (case rankedSaturation satIdx (length unique) of
              Inl e \<Rightarrow> Inl e
            | Inr r \<Rightarrow>
               (case linearSaturation v mx of
                  Inl e \<Rightarrow> Inl e
                | Inr l \<Rightarrow>
                   (case satLoop unique mx vs of
                      Inl e \<Rightarrow> Inl e
                    | Inr (rs, ls) \<Rightarrow> Inr (r # rs, l # ls)))))"

definition computeSaturations :: "Heatmap \<Rightarrow> error + Heatmap" where
  "computeSaturations hm =
     (if length (data hm) = 0 then Inr hm
      else (let sorted = sort (data hm); unique = dedup (- 1) sorted in
            case satLoop unique (last sorted) (data hm) of
              Inl e \<Rightarrow> Inl e
            | Inr (rs, ls) \<Rightarrow> Inr (hm\<lparr>linearSaturations := ls, rankedSaturations := rs\<rparr>)))"

section \<open>Layout\<close>

definition zeroKey :: heatmapCacheKey where
  "zeroKey = \<lparr>sizeK = \<lparr>X = 0, Y = 0\<rparr>, useLinearColors = False, yBucketSize = 0, xBucketSize = 0\<rparr>"

text \<open>\<open>SetData\<close>: \<open>len(data[0])\<close> panics when there is no source.\<close>

definition SetData :: "int list list \<Rightarrow> Heatmap \<Rightarrow> error + Heatmap" where
  "SetData d hm =
     (case d of
        [] \<Rightarrow> Inl IndexOutOfRange
      | d0 # _ \<Rightarrow> Inr (hm\<lparr>origData := d, numXBuckets := int (length d0), cacheKey := zeroKey\<rparr>))"


text \<open>
  The event loop at the start of \<open>Layout\<close>: the positions of the pointer-move events of
  this frame, in arrival order; each one records the position and the current constraint.
\<close>

fun pointerEvents :: "int Point \<Rightarrow> fp Point list \<Rightarrow> Heatmap \<Rightarrow> Heatmap" where
  "pointerEvents dims [] hm = hm"
| "pointerEvents dims (pos # evs) hm =
     pointerEvents dims evs (hm\<lparr>pointer := pos, pointerConstraint := dims\<rparr>)"

definition currentKey :: "int Point \<Rightarrow> Heatmap \<Rightarrow> heatmapCacheKey" where
  "currentKey dims hm =
     \<lparr>sizeK = dims, useLinearColors = UseLinearColors hm,
      yBucketSize = YBucketSize hm, xBucketSize = XBucketSize hm\<rparr>"

text \<open>
  The re-aggregation guard: only a changed X- or Y-bucket size recomputes the grid and the
  two saturation tables.
\<close>

definition reaggregate :: "heatmapCacheKey \<Rightarrow> Heatmap \<Rightarrow> error + Heatmap" where
  "reaggregate key hm =
     (if xBucketSize key \<noteq> xBucketSize (cacheKey hm) \<or> yBucketSize key \<noteq> yBucketSize (cacheKey hm)
      then (case origData hm of
              [] \<Rightarrow> Inl IndexOutOfRange
            | d0 # _ \<Rightarrow>
                (case computeBuckets (hm\<lparr>numXBuckets := int (length d0)\<rparr>) of
                   Inl e \<Rightarrow> Inl e
                 | Inr hm1 \<Rightarrow> computeSaturations hm1))
      else Inr hm)"

text \<open>
  The four rounded pixel coordinates of cell \<open>(x, y)\<close>. \<open>round32\<close> is a helper defined
  elsewhere in the repository; it is a parameter of the model. The
  products and differences are rounded one operation at a time.
\<close>

definition cellRect :: "(fp \<Rightarrow> fp) \<Rightarrow> int Point \<Rightarrow> fp \<Rightarrow> fp \<Rightarrow> int \<Rightarrow> int \<Rightarrow> rect" where
  "cellRect round32 dims xStepPx yStepPx x y =
     (let xStart = round32 (fp_mul 24 (fp_of_int 24 x) xStepPx);
          yEnd = round32 (fp_sub 24 (fp_of_int 24 (Y dims)) (fp_mul 24 (fp_of_int 24 y) yStepPx));
          xEnd = round32 (fp_mul 24 (fp_of_int 24 (x + 1)) xStepPx);
          yStart = round32 (fp_sub 24 (fp_of_int 24 (Y dims)) (fp_mul 24 (fp_of_int 24 (y + 1)) yStepPx))
      in (xStart, yStart, xEnd, yEnd))"

text \<open>
  The double loop over the cells, as one loop over the pairs \<open>(x, y)\<close> in the order the
  nested loops visit them. \<open>paths\<close> is the array of the 256 paths.
\<close>

fun cellLoop :: "(int \<Rightarrow> int \<Rightarrow> rect) \<Rightarrow> int \<Rightarrow> int list \<Rightarrow> 8 word list \<Rightarrow> (nat \<times> nat) list
    \<Rightarrow> rect list list \<Rightarrow> error + rect list list" where
  "cellLoop rc ny d sats [] paths = Inr paths"
| "cellLoop rc ny d sats ((x, y) # cs) paths =
     (let idx = int x * ny + int y in
      if idx < 0 \<or> int (length d) \<le> idx then Inl IndexOutOfRange
      else if d ! nat idx = 0 then cellLoop rc ny d sats cs paths
      else if int (length sats) \<le> idx then Inl IndexOutOfRange
      else (let s = unat (sats ! nat idx) in
            cellLoop rc ny d sats cs (paths[s := paths ! s @ [rc (int x) (int y)]])))"

text \<open>The final loop \<open>for i := range paths\<close>: one \<open>paint.FillShape\<close> for each of the paths.\<close>

definition fillPaths :: "rect list list \<Rightarrow> drawop list" where
  "fillPaths paths =
     map (\<lambda>i. FillShape (0xFF, of_nat (255 - i), of_nat (255 - i), 0xFF) (paths ! i)) [0..<256]"

text \<open>The rebuild branch: what is recorded between \<open>op.Record\<close> and \<open>m.Stop()\<close>.\<close>

definition buildGeometry :: "(fp \<Rightarrow> fp) \<Rightarrow> int Point \<Rightarrow> int \<Rightarrow> fp \<Rightarrow> fp \<Rightarrow> Heatmap \<Rightarrow> error + drawop list" where
  "buildGeometry round32 dims nx xStepPx yStepPx hm =
     (let saturations = (if UseLinearColors hm then linearSaturations hm else rankedSaturations hm) in
      case cellLoop (cellRect round32 dims xStepPx yStepPx) (numYBuckets hm) (data hm) saturations
             (List.product [0..<nat nx] [0..<nat (numYBuckets hm)]) (replicate 256 []) of
        Inl e \<Rightarrow> Inl e
      | Inr paths \<Rightarrow> Inr ([ClipRectPush dims, ThemeFillWhite, EventOp] @ fillPaths paths @ [ClipPop]))"

text \<open>
  The cache test \<open>if hm.cacheKey == key\<close>. The Boolean of the result is not a value of the
  program: it records which branch ran, \<open>True\<close> for the rebuild.
\<close>

definition renderCache :: "(fp \<Rightarrow> fp) \<Rightarrow> int Point \<Rightarrow> heatmapCacheKey \<Rightarrow> int \<Rightarrow> fp \<Rightarrow> fp \<Rightarrow> Heatmap
    \<Rightarrow> error + (Heatmap \<times> drawop list \<times> bool)" where
  "renderCache round32 dims key nx xStepPx yStepPx hm =
     (if cacheKey hm = key then Inr (hm, [CallMacro (cachedMacro hm)], False)
      else (let hm1 = hm\<lparr>cacheKey := key\<rparr> in
            case buildGeometry round32 dims nx xStepPx yStepPx hm1 of
              Inl e \<Rightarrow> Inl e
            | Inr m \<Rightarrow> Inr (hm1\<lparr>cachedMacro := m\<rparr>, [CallMacro m], True)))"

text \<open>The guard of the hover branch.\<close>

definition hoverValid :: "int Point \<Rightarrow> Heatmap \<Rightarrow> bool" where
  "hoverValid dims hm \<longleftrightarrow>
     pointerConstraint hm = dims \<and> fp_less (Fin 0) (X (pointer hm)) \<and> fp_less (Fin 0) (Y (pointer hm))
     \<and> fp_le (X (pointer hm)) (fp_of_int 24 (X dims)) \<and> fp_le (Y (pointer hm)) (fp_of_int 24 (Y dims))"

definition noHover :: HeatmapBucket where
  "noHover = \<lparr>XStart = 0, XEnd = 0, YStart = 0, YEnd = 0, Count = - 1\<rparr>"

text \<open>The bucket indices under the pointer, by inverting the pixel steps.\<close>

definition hoverIndex :: "int Point \<Rightarrow> fp \<Rightarrow> fp \<Rightarrow> fp Point \<Rightarrow> (int \<times> int) option" where
  "hoverIndex dims xStepPx yStepPx pos =
     (case int_of_fp (fp_div 24 (X pos) xStepPx) of
        None \<Rightarrow> None
      | Some x \<Rightarrow>
         (case int_of_fp (fp_div 24 (fp_sub 24 (fp_of_int 24 (Y dims)) (Y pos)) yStepPx) of
            None \<Rightarrow> None
          | Some y \<Rightarrow> Some (x, y)))"

definition hitTest :: "(fp \<Rightarrow> fp) \<Rightarrow> int Point \<Rightarrow> fp \<Rightarrow> fp \<Rightarrow> Heatmap \<Rightarrow> error + (Heatmap \<times> drawop list)" where
  "hitTest round32 dims xStepPx yStepPx hm =
     (if hoverValid dims hm then
        (case hoverIndex dims xStepPx yStepPx (pointer hm) of
           None \<Rightarrow> Inl ImplementationDependent
         | Some (x, y) \<Rightarrow>
            (let idx = x * numYBuckets hm + y in
             if idx < 0 \<or> int (length (data hm)) \<le> idx then Inl IndexOutOfRange
             else Inr (hm\<lparr>hovered :=
                          \<lparr>XStart = x * XBucketSize hm,
                           XEnd = x * XBucketSize hm + XBucketSize hm,
                           YStart = y * YBucketSize hm,
                           YEnd = y * YBucketSize hm + YBucketSize hm,
                           Count = data hm ! nat idx\<rparr>\<rparr>,
                       [HoverOutline (cellRect round32 dims xStepPx yStepPx x y)])))
      else Inr (hm\<lparr>hovered := noHover\<rparr>, []))"

record LayoutResult =
  ops :: "drawop list"
  rebuilt :: bool

text \<open>The pixel steps of the frame, from the local \<open>numXBuckets := len(hm.data) / hm.numYBuckets\<close>.\<close>

definition xStepOf :: "int Point \<Rightarrow> Heatmap \<Rightarrow> fp" where
  "xStepOf dims hm =
     fp_div 24 (fp_of_int 24 (X dims)) (fp_of_int 24 (int (length (data hm)) sdiv numYBuckets hm))"

definition yStepOf :: "int Point \<Rightarrow> Heatmap \<Rightarrow> fp" where
  "yStepOf dims hm = fp_div 24 (fp_of_int 24 (Y dims)) (fp_of_int 24 (numYBuckets hm))"

definition Layout :: "(fp \<Rightarrow> fp) \<Rightarrow> int Point \<Rightarrow> fp Point list \<Rightarrow> Heatmap \<Rightarrow> error + (Heatmap \<times> LayoutResult)" where
  "Layout round32 dims evs hm0 =
     (let hm = pointerEvents dims evs hm0; key = currentKey dims hm in
      case reaggregate key hm of
        Inl e \<Rightarrow> Inl e
      | Inr hm1 \<Rightarrow>
         if numYBuckets hm1 = 0 then Inl DivideByZero
         else (case renderCache round32 dims key (int (length (data hm1)) sdiv numYBuckets hm1)
                      (xStepOf dims hm1) (yStepOf dims hm1) hm1 of
                 Inl e \<Rightarrow> Inl e
               | Inr (hm2, o1, rb) \<Rightarrow>
                  (case hitTest round32 dims (xStepOf dims hm1) (yStepOf dims hm1) hm2 of
                     Inl e \<Rightarrow> Inl e
                   | Inr (hm3, o2) \<Rightarrow> Inr (hm3, \<lparr>ops = o1 @ o2, rebuilt = rb\<rparr>))))"

text \<open>A heatmap as \<open>NewHeatmapComponent\<close> builds it, before \<open>SetData\<close>, for a given \<open>MaxY\<close>.\<close>

definition newHeatmap :: "int \<Rightarrow> Heatmap" where
  "newHeatmap maxY =
     \<lparr>MaxY = maxY, UseLinearColors = False, XBucketSize = 100000000, YBucketSize = 1,
      numXBuckets = 0, numYBuckets = 0, data = [], origData = [],
      pointer = \<lparr>X = Fin 0, Y = Fin 0\<rparr>, pointerConstraint = \<lparr>X = 0, Y = 0\<rparr>,
      hovered = \<lparr>XStart = 0, XEnd = 0, YStart = 0, YEnd = 0, Count = 0\<rparr>,
      cacheKey = zeroKey, cachedMacro = [],
      linearSaturations = [], rankedSaturations = []\<rparr>"

section \<open>Auxiliary notions and example states\<close>

text \<open>
  The integer that \<open>uint8(0xFF * (a / b))\<close> yields for two \<open>float32\<close> values \<open>a\<close> and \<open>b\<close>
  with \<open>0 \<le> a \<le> b\<close> and \<open>0 < b\<close>, before the clamp.
\<close>

definition quant :: "rat \<Rightarrow> rat \<Rightarrow> int" where
  "quant a b = trunc (fl_round 24 (255 * fl_round 24 (a / b)))"

text \<open>A grid of two cells, the first one empty, and what \<open>computeSaturations\<close> makes of it.\<close>

definition twoCells :: Heatmap where
  "twoCells = (newHeatmap 100)\<lparr>data := [0, 1]\<rparr>"

definition twoCellsSaturated :: Heatmap where
  "twoCellsSaturated = (newHeatmap 100)\<lparr>data := [0, 1], linearSaturations := [1, 255],
     rankedSaturations := [127, 255]\<rparr>"


definition oneSample :: Heatmap where
  "oneSample = (newHeatmap 2)\<lparr>origData := [[5]], numXBuckets := 1\<rparr>"

definition oneSampleGrid :: Heatmap where
  "oneSampleGrid = oneSample\<lparr>numYBuckets := 2, data := [0, 1]\<rparr>"

text \<open>The number of \<open>paint.FillShape\<close> operations in a recorded list.\<close>

fun isFillShape :: "drawop \<Rightarrow> bool" where
  "isFillShape (FillShape c p) = True"
| "isFillShape _ = False"

definition fillCount :: "drawop list \<Rightarrow> nat" where
  "fillCount os = length (filter isFillShape os)"

text \<open>
  A heatmap of one source with the two samples 0 and 1 under \<open>MaxY = 2\<close>, as \<open>SetData\<close>
  leaves it, a viewport of 2 by 2 pixels, and the state that the re-aggregation of the first
  \<open>Layout\<close> reaches from it, with the pointer capture \<open>p\<close>, \<open>c\<close> of the frame.
  \<open>stateAfter\<close>, \<open>resultAfter\<close> and \<open>hoverAfter\<close> read a \<open>Layout\<close> call the way
  \<open>HeatmapComponent.Layout\<close> does: the state it leaves, what it returns, and the answer of
  \<open>HoveredBucket\<close> after it. \<open>specInside\<close> follows claim C2's words: the position lies in
  the closed rectangle \<open>[0, width] \<times> [0, height]\<close>. \<open>distinctUsed\<close> lists the distinct
  saturation values of the cells with a nonzero count, in the active table.
\<close>

definition twoByTwo :: Heatmap where
  "twoByTwo = (newHeatmap 2)\<lparr>origData := [[0, 1]], numXBuckets := 2\<rparr>"

definition frame :: "int Point" where
  "frame = \<lparr>X = 2, Y = 2\<rparr>"

definition aggregated :: "fp Point \<Rightarrow> int Point \<Rightarrow> Heatmap" where
  "aggregated p c = twoByTwo\<lparr>numYBuckets := 2, data := [1, 0, 0, 1],
     linearSaturations := [255, 1, 1, 255], rankedSaturations := [255, 127, 127, 255],
     pointer := p, pointerConstraint := c\<rparr>"

definition stateAfter :: "(fp \<Rightarrow> fp) \<Rightarrow> int Point \<Rightarrow> fp Point list \<Rightarrow> Heatmap \<Rightarrow> Heatmap" where
  "stateAfter r dims evs hm = (case Layout r dims evs hm of Inl e \<Rightarrow> hm | Inr (hm', res) \<Rightarrow> hm')"

definition resultAfter :: "(fp \<Rightarrow> fp) \<Rightarrow> int Point \<Rightarrow> fp Point list \<Rightarrow> Heatmap \<Rightarrow> LayoutResult" where
  "resultAfter r dims evs hm =
     (case Layout r dims evs hm of Inl e \<Rightarrow> \<lparr>ops = [], rebuilt = False\<rparr> | Inr (hm', res) \<Rightarrow> res)"



definition distinctUsed :: "Heatmap \<Rightarrow> 8 word list" where
  "distinctUsed hm =
     remdups (map snd (filter (\<lambda>c. fst c \<noteq> 0)
       (zip (data hm) (if UseLinearColors hm then linearSaturations hm else rankedSaturations hm))))"

section \<open>Rounding: bounds, monotonicity, exactness\<close>

lemma rne_of_int: "rne (of_int n) = n"
  by (simp add: rne_def)

lemma rne_floor_le: "\<lfloor>x\<rfloor> \<le> rne x"
  by (simp add: rne_def Let_def)

lemma rne_le_floor: "rne x \<le> \<lfloor>x\<rfloor> + 1"
  by (simp add: rne_def Let_def)

lemma rne_mono:
  assumes "x \<le> y"
  shows "rne x \<le> rne y"
proof (cases "\<lfloor>x\<rfloor> = \<lfloor>y\<rfloor>")
  case True
  with assms have "x - of_int \<lfloor>x\<rfloor> \<le> y - of_int \<lfloor>y\<rfloor>" by simp
  with True show ?thesis by (auto simp: rne_def Let_def)
next
  case False
  with assms have "\<lfloor>x\<rfloor> < \<lfloor>y\<rfloor>" using floor_mono[OF assms] by linarith
  then have "rne x \<le> \<lfloor>y\<rfloor>" using rne_le_floor[of x] by linarith
  then show ?thesis using rne_floor_le[of y] by linarith
qed

lemma pow2_nat: "0 \<le> e \<Longrightarrow> (2::rat) powi e = of_int (2 ^ nat e)"
  by (simp add: power_int_def)

lemma bitlen_pow_bounds:
  assumes "0 < a"
  shows "(2::rat) powi (bitlen a - 1) \<le> of_int a" "of_int a < (2::rat) powi (bitlen a)"
proof -
  have bb: "2 ^ nat (bitlen a - 1) \<le> a" "a < 2 ^ nat (bitlen a)"
    using bitlen_bounds[OF assms] by auto
  have ge: "1 \<le> bitlen a" using assms by (simp add: bitlen_alt_def)
  have "(of_int (2 ^ nat (bitlen a - 1)) :: rat) \<le> of_int a"
    using bb(1) by (simp only: of_int_le_iff)
  then show "(2::rat) powi (bitlen a - 1) \<le> of_int a"
    using ge by (simp only: pow2_nat)
  have "(of_int a :: rat) < of_int (2 ^ nat (bitlen a))"
    using bb(2) by (simp only: of_int_less_iff)
  then show "of_int a < (2::rat) powi (bitlen a)"
    using ge by (simp only: pow2_nat)
qed

text \<open>\<open>ilog2 q\<close> is the binary exponent of a positive \<open>q\<close>.\<close>

lemma ilog2_bounds:
  assumes "0 < q"
  shows "2 powi (ilog2 q) \<le> q" "q < 2 powi (ilog2 q + 1)"
proof -
  obtain a b where ab: "quotient_of q = (a, b)" by (cases "quotient_of q")
  have b: "0 < b" using quotient_of_denom_pos[OF ab] .
  have q: "q = of_int a / of_int b" using quotient_of_div[OF ab] .
  have a: "0 < a" using assms b q by (simp add: zero_less_divide_iff)
  let ?la = "bitlen a" and ?lb = "bitlen b"
  note A = bitlen_pow_bounds[OF a] and B = bitlen_pow_bounds[OF b]
  have "q < 2 powi ?la / 2 powi (?lb - 1)"
    unfolding q using a b A B by (intro frac_less) auto
  then have up: "q < 2 powi (?la - ?lb + 1)"
    by (simp add: power_int_diff power_int_add)
  have "2 powi (?la - 1) / 2 powi ?lb < q"
    unfolding q using a b A B by (intro frac_less2) auto
  then have lo: "2 powi (?la - ?lb - 1) < q"
    by (simp add: power_int_diff)
  show "2 powi (ilog2 q) \<le> q" using lo by (auto simp: ilog2_def ab Let_def)
  show "q < 2 powi (ilog2 q + 1)" using up by (auto simp: ilog2_def ab Let_def)
qed

lemma ilog2_mono:
  assumes "0 < x" "x \<le> y"
  shows "ilog2 x \<le> ilog2 y"
proof (rule ccontr)
  assume "\<not> ilog2 x \<le> ilog2 y"
  then have "ilog2 y + 1 \<le> ilog2 x" by simp
  then have "(2::rat) powi (ilog2 y + 1) \<le> 2 powi (ilog2 x)"
    by (intro power_int_increasing) auto
  moreover have "2 powi (ilog2 x) \<le> x" using ilog2_bounds(1)[OF assms(1)] .
  moreover have "y < 2 powi (ilog2 y + 1)" using ilog2_bounds(2)[of y] assms by simp
  ultimately show False using assms(2) by linarith
qed

lemma fl_round_pos_eq:
  "0 < q \<Longrightarrow> fl_round p q =
     of_int (rne (q / 2 powi (ilog2 q - (int p - 1)))) * 2 powi (ilog2 q - (int p - 1))"
  by (simp add: fl_round_def Let_def)

text \<open>A positive value rounds to a value of its own binade, the upper end included.\<close>

lemma fl_round_bounds:
  assumes "0 < q" "0 < p"
  shows "2 powi (ilog2 q) \<le> fl_round p q" "fl_round p q \<le> 2 powi (ilog2 q + 1)"
proof -
  let ?e = "ilog2 q"
  let ?u = "(2::rat) powi (?e - (int p - 1))"
  have u: "0 < ?u" by simp
  have "2 powi ?e / ?u = (2::rat) powi (int p - 1)"
    by (simp flip: power_int_diff)
  also have P1: "(2::rat) powi (int p - 1) = of_int (2 ^ (p - 1))"
    using assms(2) by (simp add: power_int_def nat_diff_distrib')
  finally have lo: "of_int (2 ^ (p - 1)) \<le> q / ?u"
    using ilog2_bounds(1)[OF assms(1)] u by (metis divide_right_mono less_imp_le)
  have "2 powi (?e + 1) / ?u = (2::rat) powi (int p)"
    by (simp flip: power_int_diff)
  also have "\<dots> = of_int (2 ^ p)" by simp
  finally have hi: "q / ?u \<le> of_int (2 ^ p)"
    using ilog2_bounds(2)[OF assms(1)] u by (metis divide_right_mono less_imp_le)
  have "2 ^ (p - 1) \<le> rne (q / ?u)" using rne_mono[OF lo] by (simp only: rne_of_int)
  then have "(of_int (2 ^ (p - 1)) :: rat) * ?u \<le> of_int (rne (q / ?u)) * ?u"
    using u by (simp del: of_int_power)
  moreover have "(of_int (2 ^ (p - 1)) :: rat) * ?u = 2 powi ?e"
    unfolding P1[symmetric] by (simp flip: power_int_add)
  ultimately show "2 powi ?e \<le> fl_round p q"
    unfolding fl_round_pos_eq[OF assms(1)] by linarith
  have "rne (q / ?u) \<le> 2 ^ p" using rne_mono[OF hi] by (simp only: rne_of_int)
  then have "of_int (rne (q / ?u)) * ?u \<le> (of_int (2 ^ p) :: rat) * ?u"
    using u by (simp del: of_int_power)
  moreover have "(of_int (2 ^ p) :: rat) * ?u = 2 powi (?e + 1)"
    by (simp flip: power_int_add power_int_of_nat)
  ultimately show "fl_round p q \<le> 2 powi (?e + 1)"
    unfolding fl_round_pos_eq[OF assms(1)] by linarith
qed

lemma fl_round_pos: "0 < q \<Longrightarrow> 0 < p \<Longrightarrow> 0 < fl_round p q"
  using fl_round_bounds(1)[of q p] zero_less_power_int[of "2::rat" "ilog2 q"] by linarith

lemma fl_round_mono_pos:
  assumes "0 < x" "x \<le> y" "0 < p"
  shows "fl_round p x \<le> fl_round p y"
proof (cases "ilog2 x = ilog2 y")
  case True
  let ?u = "(2::rat) powi (ilog2 y - (int p - 1))"
  have u: "0 < ?u" by simp
  have "x / ?u \<le> y / ?u" using assms(2) u by (simp add: divide_right_mono)
  then have "rne (x / ?u) \<le> rne (y / ?u)" by (rule rne_mono)
  then have "of_int (rne (x / ?u)) * ?u \<le> of_int (rne (y / ?u)) * ?u"
    using u by simp
  then show ?thesis using assms True by (simp add: fl_round_pos_eq)
next
  case False
  with ilog2_mono[OF assms(1,2)] have "ilog2 x + 1 \<le> ilog2 y" by simp
  then have "(2::rat) powi (ilog2 x + 1) \<le> 2 powi (ilog2 y)"
    by (intro power_int_increasing) auto
  moreover have "fl_round p x \<le> 2 powi (ilog2 x + 1)"
    using fl_round_bounds(2)[OF assms(1,3)] .
  moreover have "2 powi (ilog2 y) \<le> fl_round p y"
    using fl_round_bounds(1)[of y p] assms by simp
  ultimately show ?thesis by linarith
qed

lemma fl_round_zero: "fl_round p 0 = 0"
  by (simp add: fl_round_def)

lemma fl_round_mono_nonneg:
  "0 \<le> x \<Longrightarrow> x \<le> y \<Longrightarrow> 0 < p \<Longrightarrow> fl_round p x \<le> fl_round p y"
  using fl_round_mono_pos[of x y p] fl_round_pos[of y p]
  by (cases "x = 0") (auto simp: fl_round_zero less_eq_rat_def)

text \<open>Integers below \<open>2^p\<close> are represented exactly.\<close>

lemma fl_round_of_int_exact:
  assumes "0 < n" "n < 2 ^ p" "0 < p"
  shows "fl_round p (of_int n) = of_int n"
proof -
  let ?q = "of_int n :: rat"
  have q: "0 < ?q" using assms(1) by simp
  have "ilog2 ?q < int p"
  proof (rule ccontr)
    assume "\<not> ilog2 ?q < int p"
    then have "(2::rat) powi (int p) \<le> 2 powi (ilog2 ?q)"
      by (intro power_int_increasing) auto
    then have "(2::rat) powi (int p) \<le> ?q" using ilog2_bounds(1)[OF q] by linarith
    then have "(of_int (2 ^ p) :: rat) \<le> of_int n" by simp
    then have "2 ^ p \<le> n" by (simp only: of_int_le_iff)
    with assms(2) show False by simp
  qed
  then obtain k where k: "ilog2 ?q - (int p - 1) = - int k"
    by (metis add.commute add_diff_cancel_left' diff_ge_0_iff_ge minus_diff_eq nonneg_int_cases zle_diff1_eq)
  have "?q / 2 powi (- int k) = of_int (n * 2 ^ k)"
    by (simp add: power_int_minus field_simps)
  then have "rne (?q / 2 powi (- int k)) = n * 2 ^ k"
    by (simp only: rne_of_int)
  moreover have "(of_int (n * 2 ^ k) :: rat) * 2 powi (- int k) = of_int n"
    by (simp add: power_int_minus field_simps)
  ultimately show ?thesis
    unfolding fl_round_pos_eq[OF q] k by simp
qed

section \<open>Binary search and deduplication\<close>

lemma search_spec:
  assumes "sorted a" "i \<le> j" "j \<le> length a"
    and "\<forall>k<i. a ! k < x" and "\<forall>k. j \<le> k \<and> k < length a \<longrightarrow> x \<le> a ! k"
  shows "search a x i j \<le> j \<and> (\<forall>k < search a x i j. a ! k < x)
       \<and> (\<forall>k. search a x i j \<le> k \<and> k < length a \<longrightarrow> x \<le> a ! k)"
  using assms
proof (induction a x i j rule: search.induct)
  case (1 a x i j)
  let ?h = "(i + j) div 2"
  show ?case
  proof (cases "i < j")
    case False
    with "1.prems" have "search a x i j = i" "i = j" by (simp_all add: search.simps)
    with "1.prems" show ?thesis by simp
  next
    case True
    have h: "i \<le> ?h" "?h < j" using True by simp_all
    show ?thesis
    proof (cases "a ! ?h \<ge> x")
      case ge: True
      have eq: "search a x i j = search a x i ?h"
        using True ge by (subst search.simps) (simp add: Let_def)
      have up: "\<forall>k. ?h \<le> k \<and> k < length a \<longrightarrow> x \<le> a ! k"
      proof (intro allI impI)
        fix k assume "?h \<le> k \<and> k < length a"
        then have "a ! ?h \<le> a ! k" using "1.prems"(1) by (simp add: sorted_nth_mono)
        with ge show "x \<le> a ! k" by simp
      qed
      have "?h \<le> length a" using h "1.prems"(3) by simp
      from "1.IH"(2)[OF True refl _ "1.prems"(1) h(1) this "1.prems"(4) up] ge
      have "search a x i ?h \<le> ?h \<and> (\<forall>k < search a x i ?h. a ! k < x)
         \<and> (\<forall>k. search a x i ?h \<le> k \<and> k < length a \<longrightarrow> x \<le> a ! k)"
        by simp
      with eq h show ?thesis by simp
    next
      case lt: False
      have eq: "search a x i j = search a x (?h + 1) j"
        using True lt by (subst search.simps) (simp add: Let_def)
      have lo: "\<forall>k<?h + 1. a ! k < x"
      proof (intro allI impI)
        fix k assume "k < ?h + 1"
        then have "a ! k \<le> a ! ?h" using "1.prems"(1,3) h by (simp add: sorted_nth_mono)
        with lt show "a ! k < x" by simp
      qed
      have "?h + 1 \<le> j" using h by simp
      from "1.IH"(1)[OF True refl lt "1.prems"(1) this "1.prems"(3) lo "1.prems"(5)]
      show ?thesis using eq by simp
    qed
  qed
qed

lemma SearchInts_found:
  assumes "sorted a" "x \<in> set a"
  shows "SearchInts a x < length a \<and> a ! SearchInts a x = x"
proof -
  let ?r = "SearchInts a x"
  have S: "?r \<le> length a" "\<forall>k < ?r. a ! k < x" "\<forall>k. ?r \<le> k \<and> k < length a \<longrightarrow> x \<le> a ! k"
    using search_spec[of a 0 "length a" x] assms(1) by (simp_all add: SearchInts_def)
  obtain m where m: "m < length a" "a ! m = x" using assms(2) by (auto simp: in_set_conv_nth)
  have rm: "?r \<le> m" using S(2) m by (meson leI less_irrefl)
  then have "?r < length a" using m by simp
  moreover have "x \<le> a ! ?r" using S(3) calculation by simp
  moreover have "a ! ?r \<le> a ! m" by (rule sorted_nth_mono[OF assms(1) rm m(1)])
  ultimately show ?thesis using m by simp
qed

lemma dedup_sorted:
  assumes "sorted vs" "\<forall>v\<in>set vs. p \<le> v"
  shows "set (dedup p vs) = set vs - {p} \<and> sorted_wrt (<) (dedup p vs)"
  using assms
proof (induction vs arbitrary: p)
  case Nil
  then show ?case by simp
next
  case (Cons v vs)
  show ?case
  proof (cases "v = p")
    case True
    with Cons.IH[of p] Cons.prems show ?thesis by auto
  next
    case False
    have "\<forall>w\<in>set vs. v \<le> w" using Cons.prems(1) by simp
    with Cons.IH[of v] Cons.prems(1)
    have IH: "set (dedup v vs) = set vs - {v}" "sorted_wrt (<) (dedup v vs)" by simp_all
    have "p < v" using False Cons.prems(2) by force
    then have "p \<notin> set (v # vs)" using Cons.prems(1) by auto
    moreover have "\<forall>w\<in>set (dedup v vs). v < w"
      using IH(1) \<open>\<forall>w\<in>set vs. v \<le> w\<close> by force
    ultimately show ?thesis using False IH by auto
  qed
qed

lemma unique_props:
  assumes "\<forall>v\<in>set d. 0 \<le> v"
  shows "set (dedup (- 1) (sort d)) = set d" "sorted_wrt (<) (dedup (- 1) (sort d))"
    "sorted (dedup (- 1) (sort d))"
proof -
  have "\<forall>v\<in>set (sort d). - 1 \<le> v" using assms by force
  from dedup_sorted[OF sorted_sort this]
  have A: "set (dedup (- 1) (sort d)) = set d - {- 1}" "sorted_wrt (<) (dedup (- 1) (sort d))"
    by simp_all
  show "set (dedup (- 1) (sort d)) = set d" using A(1) assms by force
  show "sorted_wrt (<) (dedup (- 1) (sort d))" by (rule A(2))
  then show "sorted (dedup (- 1) (sort d))" by (rule strict_sorted_imp_sorted)
qed

lemma SearchInts_strict_mono:
  assumes "sorted_wrt (<) a" "x \<in> set a" "y \<in> set a" "x < y"
  shows "SearchInts a x < SearchInts a y"
proof -
  have s: "sorted a" using assms(1) by (rule strict_sorted_imp_sorted)
  note X = SearchInts_found[OF s assms(2)] and Y = SearchInts_found[OF s assms(3)]
  show ?thesis
  proof (rule ccontr)
    assume "\<not> SearchInts a x < SearchInts a y"
    then have "SearchInts a y \<le> SearchInts a x" by simp
    then have "a ! SearchInts a y \<le> a ! SearchInts a x"
      by (rule sorted_nth_mono[OF s _ X[THEN conjunct1]])
    with X Y assms(4) show False by simp
  qed
qed

section \<open>The saturation of one cell\<close>

lemma fl24_one: "fl_round 24 1 = 1"
  using fl_round_of_int_exact[of 1 24] by simp

lemma fl24_255: "fl_round 24 255 = 255"
  using fl_round_of_int_exact[of 255 24] by simp

lemma fl_round_of_int_nonneg: "0 \<le> n \<Longrightarrow> 0 < p \<Longrightarrow> 0 \<le> fl_round p (of_int n)"
  using fl_round_mono_nonneg[of 0 "of_int n" p] by (simp add: fl_round_zero)

lemma trunc_mono:
  assumes "x \<le> y"
  shows "trunc x \<le> trunc y"
proof (cases "0 \<le> x")
  case True
  with assms show ?thesis by (simp add: trunc_def floor_mono)
next
  case False
  then have cx: "\<lceil>x\<rceil> \<le> 0" by (simp add: ceiling_le_iff)
  show ?thesis
  proof (cases "0 \<le> y")
    case True
    then have "0 \<le> \<lfloor>y\<rfloor>" by simp
    with cx have "\<lceil>x\<rceil> \<le> \<lfloor>y\<rfloor>" by linarith
    with False True show ?thesis by (simp add: trunc_def)
  next
    case y: False
    with False assms show ?thesis by (simp add: trunc_def ceiling_mono)
  qed
qed

lemma quant_range:
  assumes "0 \<le> a" "a \<le> b" "0 < b"
  shows "0 \<le> quant a b" "quant a b \<le> 255"
proof -
  have r0: "0 \<le> a / b" using assms by simp
  have r1: "a / b \<le> 1" using assms by simp
  have f0: "0 \<le> fl_round 24 (a / b)"
    using fl_round_mono_nonneg[of 0 "a / b" 24] r0 by (simp add: fl_round_zero)
  have f1: "fl_round 24 (a / b) \<le> 1"
    using fl_round_mono_nonneg[OF r0 r1, of 24] by (simp add: fl24_one)
  have m0: "0 \<le> fl_round 24 (255 * fl_round 24 (a / b))"
    using fl_round_mono_nonneg[of 0 "255 * fl_round 24 (a / b)" 24] f0 by (simp add: fl_round_zero)
  have "fl_round 24 (255 * fl_round 24 (a / b)) \<le> fl_round 24 255"
    using f0 f1 by (intro fl_round_mono_nonneg) simp_all
  then have m1: "fl_round 24 (255 * fl_round 24 (a / b)) \<le> 255" by (simp add: fl24_255)
  show "0 \<le> quant a b" using m0 by (simp add: quant_def trunc_def)
  show "quant a b \<le> 255" using m0 m1 by (simp add: quant_def trunc_def floor_le_iff)
qed

lemma quant_mono:
  assumes "0 \<le> a" "a \<le> a'" "0 < b"
  shows "quant a b \<le> quant a' b"
proof -
  have "a / b \<le> a' / b" using assms by (simp add: divide_right_mono)
  moreover have "0 \<le> a / b" using assms by simp
  ultimately have "fl_round 24 (a / b) \<le> fl_round 24 (a' / b)"
    by (intro fl_round_mono_nonneg) simp_all
  moreover have "0 \<le> fl_round 24 (a / b)"
    using fl_round_mono_nonneg[of 0 "a / b" 24] \<open>0 \<le> a / b\<close> by (simp add: fl_round_zero)
  ultimately have "fl_round 24 (255 * fl_round 24 (a / b)) \<le> fl_round 24 (255 * fl_round 24 (a' / b))"
    by (intro fl_round_mono_nonneg) simp_all
  then show ?thesis unfolding quant_def by (rule trunc_mono)
qed

lemma sat_conv:
  assumes "0 \<le> a" "a \<le> b" "0 < b"
  shows "uint8_of_fp (fp_mul 24 (Fin 255) (fp_div 24 (Fin a) (Fin b))) = Some (word_of_int (quant a b))"
  using assms quant_range[OF assms]
  by (simp add: uint8_of_fp_def quant_def Let_def)

lemma word8_of_int_eq_0: "0 \<le> t \<Longrightarrow> t \<le> 255 \<Longrightarrow> (word_of_int t :: 8 word) = 0 \<longleftrightarrow> t = 0"
  by (simp add: word_of_int_eq_0_iff) presburger

lemma clamp_word:
  assumes "0 \<le> t" "t \<le> 255"
  shows "(if (word_of_int t :: 8 word) = 0 then 1 else word_of_int t) = (word_of_int (max 1 t) :: 8 word)"
  using assms word8_of_int_eq_0[OF assms] by (auto simp: max_def)

lemma word8_of_int_mono:
  assumes "0 \<le> s" "s \<le> t" "t \<le> 255"
  shows "(word_of_int s :: 8 word) \<le> word_of_int t"
  using assms by (simp add: word_le_def uint_word_of_int take_bit_int_eq_self)

lemma rankedSaturation_eq:
  assumes "i < n"
  shows "rankedSaturation i n =
    Inr (word_of_int (max 1 (quant (fl_round 24 (of_int (int i + 1))) (fl_round 24 (of_int (int n))))))"
proof -
  let ?a = "fl_round 24 (of_int (int i + 1))" and ?b = "fl_round 24 (of_int (int n))"
  have a: "0 < ?a" by (intro fl_round_pos) simp_all
  have ab: "?a \<le> ?b" using assms by (intro fl_round_mono_pos) simp_all
  have b: "0 < ?b" using a ab by simp
  have a0: "0 \<le> ?a" using a by simp
  show ?thesis
    unfolding rankedSaturation_def fp_of_int_def sat_conv[OF a0 ab b]
    by (simp only: option.case clamp_word[OF quant_range[OF a0 ab b]])
qed

lemma rankedSaturation_mono:
  assumes "i \<le> j" "j < n" "rankedSaturation i n = Inr s" "rankedSaturation j n = Inr t"
  shows "s \<le> t"
proof -
  let ?a = "fl_round 24 (of_int (int i + 1))" and ?a' = "fl_round 24 (of_int (int j + 1))"
  let ?b = "fl_round 24 (of_int (int n))"
  have a: "0 < ?a" by (intro fl_round_pos) simp_all
  have aa: "?a \<le> ?a'" using assms by (intro fl_round_mono_pos) simp_all
  have ab: "?a' \<le> ?b" using assms by (intro fl_round_mono_pos) simp_all
  have b: "0 < ?b" using a aa ab by simp
  have "quant ?a ?b \<le> quant ?a' ?b" using a aa b by (intro quant_mono) simp_all
  moreover have "quant ?a' ?b \<le> 255" using a aa ab b by (intro quant_range) simp_all
  ultimately have "(word_of_int (max 1 (quant ?a ?b)) :: 8 word) \<le> word_of_int (max 1 (quant ?a' ?b))"
    by (intro word8_of_int_mono) simp_all
  moreover have "i < n" using assms by simp
  ultimately show ?thesis
    using assms(3,4) rankedSaturation_eq[OF \<open>i < n\<close>] rankedSaturation_eq[OF \<open>j < n\<close>] by simp
qed

lemma linearSaturation_eq:
  assumes "0 \<le> v" "v \<le> mx" "0 < mx"
  shows "linearSaturation v mx =
    Inr (word_of_int (max 1 (quant (fl_round 24 (of_int v)) (fl_round 24 (of_int mx)))))"
proof -
  let ?a = "fl_round 24 (of_int v)" and ?b = "fl_round 24 (of_int mx)"
  have a0: "0 \<le> ?a" using assms by (intro fl_round_of_int_nonneg) simp_all
  have ab: "?a \<le> ?b" using assms by (intro fl_round_mono_nonneg) simp_all
  have b: "0 < ?b" using assms by (intro fl_round_pos) simp_all
  show ?thesis
    unfolding linearSaturation_def fp_of_int_def sat_conv[OF a0 ab b]
    by (simp only: option.case clamp_word[OF quant_range[OF a0 ab b]])
qed

lemma linearSaturation_zero:
  assumes "0 < mx"
  shows "linearSaturation 0 mx = Inr 1"
proof -
  have "quant 0 (fl_round 24 (of_int mx)) = 0"
    by (simp add: quant_def fl_round_zero trunc_def)
  then show ?thesis using linearSaturation_eq[of 0 mx] assms by (simp add: fl_round_zero)
qed

lemma linearSaturation_nonzero:
  assumes "0 \<le> v" "v \<le> mx" "0 < mx" "linearSaturation v mx = Inr s"
  shows "s \<noteq> 0"
proof -
  let ?t = "quant (fl_round 24 (of_int v)) (fl_round 24 (of_int mx))"
  have a0: "0 \<le> fl_round 24 (of_int v)" using assms by (intro fl_round_of_int_nonneg) simp_all
  have ab: "fl_round 24 (of_int v) \<le> fl_round 24 (of_int mx)"
    using assms by (intro fl_round_mono_nonneg) simp_all
  have b: "0 < fl_round 24 (of_int mx)" using assms by (intro fl_round_pos) simp_all
  have "0 \<le> max 1 ?t" "max 1 ?t \<le> 255" "max 1 ?t \<noteq> 0"
    using quant_range[OF a0 ab b] by simp_all
  then have "(word_of_int (max 1 ?t) :: 8 word) \<noteq> 0"
    using word8_of_int_eq_0 by blast
  then show ?thesis using assms(4) linearSaturation_eq[OF assms(1-3)] by simp
qed

section \<open>The saturation tables\<close>

lemma satLoop_Inr:
  assumes "satLoop u mx vs = Inr (rs, ls)"
  shows "length rs = length vs \<and> length ls = length vs
     \<and> (\<forall>i<length vs. SearchInts u (vs ! i) \<noteq> length u
           \<and> rankedSaturation (SearchInts u (vs ! i)) (length u) = Inr (rs ! i)
           \<and> linearSaturation (vs ! i) mx = Inr (ls ! i))"
  using assms
proof (induction vs arbitrary: rs ls)
  case Nil
  then show ?case by simp
next
  case (Cons v vs)
  from Cons.prems obtain r l rs' ls' where
    s: "SearchInts u v \<noteq> length u"
    and r: "rankedSaturation (SearchInts u v) (length u) = Inr r"
    and l: "linearSaturation v mx = Inr l"
    and rest: "satLoop u mx vs = Inr (rs', ls')"
    and eq: "rs = r # rs'" "ls = l # ls'"
    by (auto simp: Let_def split: if_splits sum.splits prod.splits)
  from Cons.IH[OF rest] s r l eq show ?case
    by (auto simp: nth_Cons')
qed

lemma satLoop_total:
  assumes "sorted_wrt (<) u" "set vs \<subseteq> set u" "\<forall>v\<in>set vs. 0 \<le> v \<and> v \<le> mx" "0 < mx"
  shows "\<exists>rs ls. satLoop u mx vs = Inr (rs, ls)"
  using assms(2,3)
proof (induction vs)
  case Nil
  then show ?case by simp
next
  case (Cons v vs)
  have s: "sorted u" using assms(1) by (rule strict_sorted_imp_sorted)
  have f: "SearchInts u v < length u" using SearchInts_found[OF s, of v] Cons.prems(1) by simp
  from Cons.IH Cons.prems obtain rs ls where rest: "satLoop u mx vs = Inr (rs, ls)" by auto
  show ?case
    using f rest rankedSaturation_eq[OF f] linearSaturation_eq[of v mx] Cons.prems(2) assms(4)
    by (simp add: Let_def)
qed

lemma satLoop_no_panic:
  assumes "sorted u" "set vs \<subseteq> set u"
  shows "satLoop u mx vs \<noteq> Inl CouldntFindBucket"
  using assms(2)
proof (induction vs)
  case Nil
  then show ?case by simp
next
  case (Cons v vs)
  have f: "SearchInts u v < length u" using SearchInts_found[OF assms(1), of v] Cons.prems by simp
  have r: "rankedSaturation (SearchInts u v) (length u) \<noteq> Inl CouldntFindBucket"
    by (simp add: rankedSaturation_def split: option.splits)
  have l: "linearSaturation v mx \<noteq> Inl CouldntFindBucket"
    by (simp add: linearSaturation_def split: option.splits)
  from Cons.IH Cons.prems have "satLoop u mx vs \<noteq> Inl CouldntFindBucket" by simp
  with f r l show ?case
    by (auto simp: Let_def split: sum.splits prod.splits)
qed

lemma last_sort_max:
  assumes "d \<noteq> []"
  shows "\<forall>v\<in>set d. v \<le> last (sort d)" "last (sort d) \<in> set d"
proof -
  have ne: "sort d \<noteq> []" using assms by (metis length_0_conv length_sort)
  show "\<forall>v\<in>set d. v \<le> last (sort d)"
  proof
    fix v assume "v \<in> set d"
    then have "v \<in> set (sort d)" by simp
    then obtain k where k: "k < length (sort d)" "sort d ! k = v"
      unfolding in_set_conv_nth by blast
    have "sort d ! k \<le> sort d ! (length (sort d) - 1)"
      using k(1) by (intro sorted_nth_mono) simp_all
    then show "v \<le> last (sort d)" using k(2) ne by (simp add: last_conv_nth)
  qed
  show "last (sort d) \<in> set d" using last_in_set[OF ne] by simp
qed

lemma computeSaturations_Inr:
  assumes "computeSaturations hm = Inr hm'" "data hm \<noteq> []"
  shows "\<exists>rs ls. satLoop (dedup (- 1) (sort (data hm))) (last (sort (data hm))) (data hm) = Inr (rs, ls)
     \<and> hm' = hm\<lparr>linearSaturations := ls, rankedSaturations := rs\<rparr>"
  using assms by (auto simp: computeSaturations_def Let_def split: sum.splits prod.splits)

lemma computeSaturations_total:
  assumes "data hm \<noteq> []" "\<forall>v\<in>set (data hm). 0 \<le> v" "\<exists>v\<in>set (data hm). 0 < v"
  shows "\<exists>hm'. computeSaturations hm = Inr hm'"
proof -
  let ?d = "data hm"
  note M = last_sort_max[OF assms(1)]
  have mx: "0 < last (sort ?d)" using assms(3) M(1) by force
  have "\<forall>v\<in>set ?d. 0 \<le> v \<and> v \<le> last (sort ?d)" using assms(2) M(1) by simp
  from satLoop_total[OF unique_props(2)[OF assms(2)] _ this mx]
  obtain rs ls where "satLoop (dedup (- 1) (sort ?d)) (last (sort ?d)) ?d = Inr (rs, ls)"
    using unique_props(1)[OF assms(2)] by auto
  then show ?thesis using assms(1) by (simp add: computeSaturations_def Let_def)
qed

lemma ranked_monotone_aux:
  assumes "computeSaturations hm = Inr hm'" "\<forall>v\<in>set (data hm). 0 \<le> v"
    and "i < length (data hm)" "j < length (data hm)" "data hm ! i \<le> data hm ! j"
  shows "rankedSaturations hm' ! i \<le> rankedSaturations hm' ! j"
proof -
  let ?d = "data hm" and ?u = "dedup (- 1) (sort (data hm))"
  have ne: "?d \<noteq> []" using assms(3) by auto
  from computeSaturations_Inr[OF assms(1) ne] obtain rs ls where
    sl: "satLoop ?u (last (sort ?d)) ?d = Inr (rs, ls)"
    and hm': "hm' = hm\<lparr>linearSaturations := ls, rankedSaturations := rs\<rparr>" by blast
  note S = satLoop_Inr[OF sl]
  note U = unique_props[OF assms(2)]
  have mi: "?d ! i \<in> set ?u" and mj: "?d ! j \<in> set ?u" using U(1) assms(3,4) by simp_all
  have fj: "SearchInts ?u (?d ! j) < length ?u" using SearchInts_found[OF U(3) mj] by simp
  have le: "SearchInts ?u (?d ! i) \<le> SearchInts ?u (?d ! j)"
  proof (cases "?d ! i = ?d ! j")
    case True
    then show ?thesis by simp
  next
    case False
    with assms(5) have "?d ! i < ?d ! j" by simp
    from SearchInts_strict_mono[OF U(2) mi mj this] show ?thesis by simp
  qed
  have "rs ! i \<le> rs ! j"
    using rankedSaturation_mono[OF le fj] S assms(3,4) by blast
  then show ?thesis by (simp add: hm')
qed

section \<open>The grid holds counts\<close>

text \<open>The grid that the aggregation builds holds counts: no cell is negative.\<close>

lemma bucketLoop_nonneg:
  assumes "bucketLoop ybs ny i ys d = Inr d'" "\<forall>v\<in>set d. 0 \<le> v"
  shows "\<forall>v\<in>set d'. 0 \<le> v"
  using assms
proof (induction ys arbitrary: i d)
  case Nil
  then show ?case by simp
next
  case (Cons y ys)
  from Cons.prems(1) obtain bin where
    b: "yBin ybs ny y = Inr bin"
    and i0: "0 \<le> int i * ny + bin" and i1: "int i * ny + bin < int (length d)"
    and rest: "bucketLoop ybs ny (Suc i) ys (d[nat (int i * ny + bin) := d ! nat (int i * ny + bin) + 1]) = Inr d'"
    by (auto simp: Let_def split: sum.splits if_splits)
  let ?k = "nat (int i * ny + bin)"
  have k: "?k < length d" using i0 i1 by simp
  then have "d ! ?k \<in> set d" by (rule nth_mem)
  with Cons.prems(2) have "0 \<le> d ! ?k + 1" by force
  moreover have "set (d[?k := d ! ?k + 1]) \<subseteq> insert (d ! ?k + 1) (set d)"
    by (rule set_update_subset_insert)
  ultimately have "\<forall>v\<in>set (d[?k := d ! ?k + 1]). 0 \<le> v" using Cons.prems(2) by auto
  from Cons.IH[OF rest this] show ?case .
qed

lemma sourcesLoop_nonneg:
  assumes "sourcesLoop ybs ny srcs d = Inr d'" "\<forall>v\<in>set d. 0 \<le> v"
  shows "\<forall>v\<in>set d'. 0 \<le> v"
  using assms
proof (induction srcs arbitrary: d)
  case Nil
  then show ?case by simp
next
  case (Cons xs srcs)
  from Cons.prems(1) obtain d1 where
    a: "bucketLoop ybs ny 0 xs d = Inr d1" and r: "sourcesLoop ybs ny srcs d1 = Inr d'"
    by (auto split: sum.splits)
  from Cons.IH[OF r bucketLoop_nonneg[OF a Cons.prems(2)]] show ?case .
qed

lemma computeBuckets_nonneg:
  assumes "computeBuckets hm = Inr hm'"
  shows "\<forall>v\<in>set (data hm'). 0 \<le> v"
proof -
  from assms obtain ny d where
    l: "sourcesLoop (YBucketSize hm) ny (origData hm) (replicate (nat (numXBuckets hm * ny)) 0) = Inr d"
    and h: "hm' = hm\<lparr>numYBuckets := ny, data := d\<rparr>"
    by (auto simp: computeBuckets_def split: option.splits if_splits sum.splits)
  have "\<forall>v\<in>set (replicate (nat (numXBuckets hm * ny)) (0::int)). 0 \<le> v" by simp
  from sourcesLoop_nonneg[OF l this] show ?thesis by (simp add: h)
qed

section \<open>Claims about the saturation tables\<close>

lemma twoCells_eval: "computeSaturations twoCells = Inr twoCellsSaturated"
  by code_simp

text \<open>
  Against claim C1 as stated: in the grid \<open>[0, 1]\<close> the first cell has count 0, and its
  linear saturation is 1, not 0. The clamp \<open>if s == 0 { s = 1 }\<close> does not look at the count.
\<close>

theorem empty_cell_linear_saturation_counterexample:
  "computeSaturations twoCells = Inr twoCellsSaturated
   \<and> data twoCells ! 0 = 0 \<and> linearSaturations twoCellsSaturated ! 0 = 1"
  using twoCells_eval by (simp add: twoCells_def twoCellsSaturated_def)

text \<open>
  Claim C1, amended: after \<open>computeSaturations\<close> has run on a non-empty grid of
  non-negative counts of which at least one is positive, every cell whose count is exactly 0
  has linear saturation exactly 1, because the clamp to 1 applies to every cell whatever its
  count; no cell has linear saturation 0.
\<close>

theorem linear_saturation_clamps_every_cell:
  assumes "data hm \<noteq> []" "\<forall>v\<in>set (data hm). 0 \<le> v" "\<exists>v\<in>set (data hm). 0 < v"
  shows "\<exists>hm'. computeSaturations hm = Inr hm'
     \<and> length (linearSaturations hm') = length (data hm)
     \<and> (\<forall>i<length (data hm). linearSaturations hm' ! i \<noteq> 0
           \<and> (data hm ! i = 0 \<longrightarrow> linearSaturations hm' ! i = 1))"
proof -
  let ?d = "data hm" and ?mx = "last (sort (data hm))"
  from computeSaturations_total[OF assms] obtain hm' where c: "computeSaturations hm = Inr hm'" ..
  from computeSaturations_Inr[OF c assms(1)] obtain rs ls where
    sl: "satLoop (dedup (- 1) (sort ?d)) ?mx ?d = Inr (rs, ls)"
    and hm': "hm' = hm\<lparr>linearSaturations := ls, rankedSaturations := rs\<rparr>" by blast
  note S = satLoop_Inr[OF sl]
  note M = last_sort_max[OF assms(1)]
  have mx: "0 < ?mx" using assms(3) M(1) by force
  have "\<forall>i<length ?d. ls ! i \<noteq> 0 \<and> (?d ! i = 0 \<longrightarrow> ls ! i = 1)"
  proof (intro allI impI)
    fix i assume i: "i < length ?d"
    then have l: "linearSaturation (?d ! i) ?mx = Inr (ls ! i)" using S by blast
    have v: "0 \<le> ?d ! i" "?d ! i \<le> ?mx" using i assms(2) M(1) by simp_all
    have "ls ! i \<noteq> 0" by (rule linearSaturation_nonzero[OF v mx l])
    moreover have "?d ! i = 0 \<longrightarrow> ls ! i = 1"
      using l linearSaturation_zero[OF mx] by auto
    ultimately show "ls ! i \<noteq> 0 \<and> (?d ! i = 0 \<longrightarrow> ls ! i = 1)" by simp
  qed
  with c S show ?thesis by (simp add: hm')
qed

theorem linear_saturation_clamps_every_cell_witness:
  "data twoCells = [0, 1]
   \<and> (\<exists>hm'. computeSaturations twoCells = Inr hm'
         \<and> length (linearSaturations hm') = 2
         \<and> linearSaturations hm' ! 0 = 1 \<and> linearSaturations hm' ! 1 \<noteq> 0)"
proof -
  have d: "data twoCells = [0, 1]" by (simp add: twoCells_def)
  have h: "data twoCells \<noteq> []" "\<forall>v\<in>set (data twoCells). 0 \<le> v" "\<exists>v\<in>set (data twoCells). 0 < v"
    by (simp_all add: d)
  from linear_saturation_clamps_every_cell[OF h] obtain hm' where
    c: "computeSaturations twoCells = Inr hm'"
    and l: "length (linearSaturations hm') = length (data twoCells)"
    and a: "\<forall>i<length (data twoCells). linearSaturations hm' ! i \<noteq> 0
           \<and> (data twoCells ! i = 0 \<longrightarrow> linearSaturations hm' ! i = 1)"
    by blast
  have "linearSaturations hm' ! 0 = 1" using a[rule_format, of 0] by (simp add: d)
  moreover have "linearSaturations hm' ! 1 \<noteq> 0" using a[rule_format, of 1] by (simp add: d)
  ultimately show ?thesis using c l d by auto
qed

text \<open>
  Claim C8: rank saturation is monotonic non-decreasing in the cell value. For two cells of
  one grid of counts, a smaller count never has the larger ranked saturation, and equal
  counts have equal ranked saturations.
\<close>

theorem ranked_saturation_monotone:
  assumes "computeSaturations hm = Inr hm'" "\<forall>v\<in>set (data hm). 0 \<le> v"
    and "i < length (data hm)" "j < length (data hm)"
  shows "(data hm ! i < data hm ! j \<longrightarrow> rankedSaturations hm' ! i \<le> rankedSaturations hm' ! j)
       \<and> (data hm ! i = data hm ! j \<longrightarrow> rankedSaturations hm' ! i = rankedSaturations hm' ! j)"
proof (intro conjI impI)
  assume "data hm ! i < data hm ! j"
  then have "data hm ! i \<le> data hm ! j" by simp
  from ranked_monotone_aux[OF assms this]
  show "rankedSaturations hm' ! i \<le> rankedSaturations hm' ! j" .
next
  assume e: "data hm ! i = data hm ! j"
  then have "data hm ! i \<le> data hm ! j" "data hm ! j \<le> data hm ! i" by simp_all
  from ranked_monotone_aux[OF assms(1,2,3,4) this(1)] ranked_monotone_aux[OF assms(1,2,4,3) this(2)]
  show "rankedSaturations hm' ! i = rankedSaturations hm' ! j" by simp
qed

theorem ranked_saturation_monotone_witness:
  "computeSaturations twoCells = Inr twoCellsSaturated \<and> data twoCells = [0, 1]
   \<and> data twoCells ! 0 < data twoCells ! 1
   \<and> rankedSaturations twoCellsSaturated ! 0 \<le> rankedSaturations twoCellsSaturated ! 1"
proof -
  have d: "data twoCells = [0, 1]" by (simp add: twoCells_def)
  have h: "\<forall>v\<in>set (data twoCells). 0 \<le> v" "0 < length (data twoCells)" "1 < length (data twoCells)"
    and lt: "data twoCells ! 0 < data twoCells ! 1"
    by (simp_all add: d)
  show ?thesis
    using twoCells_eval d lt ranked_saturation_monotone[OF twoCells_eval h] by blast
qed

text \<open>
  Claim C9: on an empty grid \<open>computeSaturations\<close> changes nothing; on a grid of counts,
  and so on every grid that \<open>computeBuckets\<close> builds, the binary search finds every cell
  value in the deduplicated sorted copy, so the branch \<open>panic("couldn't find bucket")\<close> is
  never taken.
\<close>

theorem search_never_fails:
  "(data hm = [] \<longrightarrow> computeSaturations hm = Inr hm)
   \<and> ((\<forall>v\<in>set (data hm). 0 \<le> v) \<longrightarrow>
        (\<forall>v\<in>set (data hm). SearchInts (dedup (- 1) (sort (data hm))) v
              \<noteq> length (dedup (- 1) (sort (data hm))))
        \<and> computeSaturations hm \<noteq> Inl CouldntFindBucket)
   \<and> (computeBuckets hm0 = Inr hm \<longrightarrow> computeSaturations hm \<noteq> Inl CouldntFindBucket)"
proof -
  have counts: "computeSaturations hm \<noteq> Inl CouldntFindBucket" if nn: "\<forall>v\<in>set (data hm). 0 \<le> v"
  proof -
    note U = unique_props[OF nn]
    have "satLoop (dedup (- 1) (sort (data hm))) (last (sort (data hm))) (data hm) \<noteq> Inl CouldntFindBucket"
      using satLoop_no_panic[OF U(3)] U(1) by simp
    then show ?thesis
      by (auto simp: computeSaturations_def Let_def split: sum.splits prod.splits)
  qed
  show ?thesis
  proof (intro conjI impI)
    assume "data hm = []"
    then show "computeSaturations hm = Inr hm" by (simp add: computeSaturations_def)
  next
    assume nn: "\<forall>v\<in>set (data hm). 0 \<le> v"
    note U = unique_props[OF nn]
    show "\<forall>v\<in>set (data hm). SearchInts (dedup (- 1) (sort (data hm))) v
            \<noteq> length (dedup (- 1) (sort (data hm)))"
    proof
      fix v assume "v \<in> set (data hm)"
      then have "v \<in> set (dedup (- 1) (sort (data hm)))" using U(1) by simp
      from SearchInts_found[OF U(3) this]
      show "SearchInts (dedup (- 1) (sort (data hm))) v \<noteq> length (dedup (- 1) (sort (data hm)))"
        by simp
    qed
  next
    assume "\<forall>v\<in>set (data hm). 0 \<le> v"
    then show "computeSaturations hm \<noteq> Inl CouldntFindBucket" by (rule counts)
  next
    assume "computeBuckets hm0 = Inr hm"
    then have "\<forall>v\<in>set (data hm). 0 \<le> v" by (rule computeBuckets_nonneg)
    then show "computeSaturations hm \<noteq> Inl CouldntFindBucket" by (rule counts)
  qed
qed

lemma oneSampleGrid_eval: "computeBuckets oneSample = Inr oneSampleGrid"
  by code_simp

theorem search_never_fails_witness:
  "(data (newHeatmap 100) = [] \<and> computeSaturations (newHeatmap 100) = Inr (newHeatmap 100))
   \<and> data twoCells = [0, 1]
   \<and> SearchInts (dedup (- 1) (sort (data twoCells))) 0 \<noteq> length (dedup (- 1) (sort (data twoCells)))
   \<and> SearchInts (dedup (- 1) (sort (data twoCells))) 1 \<noteq> length (dedup (- 1) (sort (data twoCells)))
   \<and> computeSaturations twoCells \<noteq> Inl CouldntFindBucket
   \<and> computeBuckets oneSample = Inr oneSampleGrid
   \<and> computeSaturations oneSampleGrid \<noteq> Inl CouldntFindBucket"
proof -
  have e: "data (newHeatmap 100) = []" by (simp add: newHeatmap_def)
  have d: "data twoCells = [0, 1]" by (simp add: twoCells_def)
  have n: "\<forall>v\<in>set (data twoCells). 0 \<le> v" by (simp add: d)
  have m: "0 \<in> set (data twoCells)" "1 \<in> set (data twoCells)" by (simp_all add: d)
  show ?thesis
    using e d n m oneSampleGrid_eval search_never_fails[of "newHeatmap 100" oneSample]
      search_never_fails[of twoCells oneSample] search_never_fails[of oneSampleGrid oneSample]
    by blast
qed

section \<open>Claims about the aggregation\<close>

lemma sdiv_nonneg: "0 \<le> a \<Longrightarrow> 0 < b \<Longrightarrow> (a::int) sdiv b = a div b"
  by (cases "a = 0") (simp_all add: signed_divide_int_def)


















section \<open>The stages of Layout\<close>

lemma pointerEvents_fields:
  "\<exists>p c. pointerEvents dims evs hm = hm\<lparr>pointer := p, pointerConstraint := c\<rparr>"
proof (induction evs arbitrary: hm)
  case Nil
  have "hm = hm\<lparr>pointer := pointer hm, pointerConstraint := pointerConstraint hm\<rparr>" by simp
  then show ?case by (metis pointerEvents.simps(1))
next
  case (Cons e evs)
  from Cons.IH[of "hm\<lparr>pointer := e, pointerConstraint := dims\<rparr>"] show ?case by auto
qed

lemma currentKey_pointerEvents: "currentKey dims (pointerEvents dims' evs hm) = currentKey dims hm"
  using pointerEvents_fields[of dims' evs hm] by (auto simp: currentKey_def)

lemma computeBuckets_fields:
  assumes "computeBuckets hm = Inr hm1"
  shows "\<exists>ny d. hm1 = hm\<lparr>numYBuckets := ny, data := d\<rparr>"
  using assms by (auto simp: computeBuckets_def split: option.splits if_splits sum.splits)

lemma computeSaturations_fields:
  assumes "computeSaturations hm = Inr hm1"
  shows "\<exists>ls rs. hm1 = hm\<lparr>linearSaturations := ls, rankedSaturations := rs\<rparr>"
proof (cases "data hm = []")
  case True
  with assms have "hm1 = hm" by (simp add: computeSaturations_def)
  moreover have "hm = hm\<lparr>linearSaturations := linearSaturations hm, rankedSaturations := rankedSaturations hm\<rparr>"
    by simp
  ultimately show ?thesis by metis
next
  case False
  from computeSaturations_Inr[OF assms False] show ?thesis by blast
qed

lemma reaggregate_fields:
  assumes "reaggregate key hm = Inr hm1"
  shows "MaxY hm1 = MaxY hm \<and> UseLinearColors hm1 = UseLinearColors hm
       \<and> XBucketSize hm1 = XBucketSize hm \<and> YBucketSize hm1 = YBucketSize hm
       \<and> origData hm1 = origData hm \<and> pointer hm1 = pointer hm
       \<and> pointerConstraint hm1 = pointerConstraint hm \<and> cacheKey hm1 = cacheKey hm
       \<and> cachedMacro hm1 = cachedMacro hm"
proof (cases "xBucketSize key \<noteq> xBucketSize (cacheKey hm) \<or> yBucketSize key \<noteq> yBucketSize (cacheKey hm)")
  case False
  with assms show ?thesis by (simp add: reaggregate_def)
next
  case True
  with assms obtain d0 ds hmb where
    o: "origData hm = d0 # ds"
    and b: "computeBuckets (hm\<lparr>numXBuckets := int (length d0)\<rparr>) = Inr hmb"
    and s: "computeSaturations hmb = Inr hm1"
    by (auto simp: reaggregate_def split: list.splits sum.splits)
  from computeBuckets_fields[OF b] computeSaturations_fields[OF s] show ?thesis by auto
qed

lemma reaggregate_same_sizes:
  assumes "xBucketSize key = xBucketSize (cacheKey hm)" "yBucketSize key = yBucketSize (cacheKey hm)"
  shows "reaggregate key hm = Inr hm"
  using assms by (simp add: reaggregate_def)

lemma buildGeometry_frame:
  "buildGeometry r dims nx xs ys (hm\<lparr>cacheKey := k\<rparr>) = buildGeometry r dims nx xs ys hm"
  "buildGeometry r dims nx xs ys (hm\<lparr>cachedMacro := m\<rparr>) = buildGeometry r dims nx xs ys hm"
  "buildGeometry r dims nx xs ys (hm\<lparr>hovered := h\<rparr>) = buildGeometry r dims nx xs ys hm"
  by (simp_all add: buildGeometry_def)

lemma renderCache_Inr:
  assumes "renderCache r dims key nx xs ys hm1 = Inr (hm2, o1, rb)"
  shows "hm2 = hm1\<lparr>cacheKey := key, cachedMacro := cachedMacro hm2\<rparr>
       \<and> o1 = [CallMacro (cachedMacro hm2)] \<and> (rb \<longleftrightarrow> cacheKey hm1 \<noteq> key)
       \<and> (\<not> rb \<longrightarrow> cachedMacro hm2 = cachedMacro hm1)
       \<and> (rb \<longrightarrow> buildGeometry r dims nx xs ys hm1 = Inr (cachedMacro hm2))"
proof (cases "cacheKey hm1 = key")
  case True
  with assms show ?thesis by (auto simp: renderCache_def)
next
  case False
  with assms show ?thesis
    by (auto simp: renderCache_def Let_def buildGeometry_frame split: sum.splits)
qed

lemma hitTest_Inr:
  assumes "hitTest r dims xs ys hm2 = Inr (hm', o2)"
  shows "hm' = hm2\<lparr>hovered := hovered hm'\<rparr>
       \<and> (\<not> hoverValid dims hm2 \<longrightarrow> hovered hm' = noHover)
       \<and> (hoverValid dims hm2 \<longrightarrow>
            (\<exists>x y. hoverIndex dims xs ys (pointer hm2) = Some (x, y)
               \<and> 0 \<le> x * numYBuckets hm2 + y \<and> x * numYBuckets hm2 + y < int (length (data hm2))
               \<and> Count (hovered hm') = data hm2 ! nat (x * numYBuckets hm2 + y)))"
proof (cases "hoverValid dims hm2")
  case False
  with assms show ?thesis by (auto simp: hitTest_def)
next
  case True
  with assms show ?thesis
    by (auto simp: hitTest_def Let_def split: option.splits prod.splits if_splits)
qed

lemma Layout_Inr:
  assumes "Layout r dims evs hm = Inr (hm', res)"
  obtains hm1 hm2 o1 o2 where
    "reaggregate (currentKey dims hm) (pointerEvents dims evs hm) = Inr hm1"
    "numYBuckets hm1 \<noteq> 0"
    "renderCache r dims (currentKey dims hm) (int (length (data hm1)) sdiv numYBuckets hm1)
        (xStepOf dims hm1) (yStepOf dims hm1) hm1 = Inr (hm2, o1, rebuilt res)"
    "hitTest r dims (xStepOf dims hm1) (yStepOf dims hm1) hm2 = Inr (hm', o2)"
    "ops res = o1 @ o2"
  using assms
  by (auto simp: Layout_def Let_def currentKey_pointerEvents split: sum.splits if_splits prod.splits)

lemma step_frame:
  "xStepOf dims (hm\<lparr>cacheKey := k, cachedMacro := m, hovered := h\<rparr>) = xStepOf dims hm"
  "yStepOf dims (hm\<lparr>cacheKey := k, cachedMacro := m, hovered := h\<rparr>) = yStepOf dims hm"
  "hoverValid dims (hm\<lparr>cacheKey := k, cachedMacro := m, hovered := h\<rparr>) = hoverValid dims hm"
  "hoverValid dims (hm\<lparr>cacheKey := k, cachedMacro := m\<rparr>) = hoverValid dims hm"
  by (simp_all add: xStepOf_def yStepOf_def hoverValid_def)

lemma Layout_shape:
  assumes "Layout r dims evs hm = Inr (hm', res)"
  obtains hm1 o2 where
    "reaggregate (currentKey dims hm) (pointerEvents dims evs hm) = Inr hm1"
    "numYBuckets hm1 \<noteq> 0"
    "hm' = hm1\<lparr>cacheKey := currentKey dims hm, cachedMacro := cachedMacro hm', hovered := hovered hm'\<rparr>"
    "ops res = CallMacro (cachedMacro hm') # o2"
    "rebuilt res \<longleftrightarrow> cacheKey hm \<noteq> currentKey dims hm"
    "\<not> rebuilt res \<longrightarrow> cachedMacro hm' = cachedMacro hm"
    "rebuilt res \<longrightarrow> buildGeometry r dims (int (length (data hm1)) sdiv numYBuckets hm1)
        (xStepOf dims hm1) (yStepOf dims hm1) hm1 = Inr (cachedMacro hm')"
    "\<not> hoverValid dims hm1 \<longrightarrow> hovered hm' = noHover"
    "hoverValid dims hm1 \<longrightarrow>
       (\<exists>x y. hoverIndex dims (xStepOf dims hm1) (yStepOf dims hm1) (pointer hm1) = Some (x, y)
          \<and> 0 \<le> x * numYBuckets hm1 + y \<and> x * numYBuckets hm1 + y < int (length (data hm1))
          \<and> Count (hovered hm') = data hm1 ! nat (x * numYBuckets hm1 + y))"
proof -
  from Layout_Inr[OF assms] obtain hm1 hm2 o1 o2 where
    re: "reaggregate (currentKey dims hm) (pointerEvents dims evs hm) = Inr hm1"
    and ny: "numYBuckets hm1 \<noteq> 0"
    and rc: "renderCache r dims (currentKey dims hm) (int (length (data hm1)) sdiv numYBuckets hm1)
        (xStepOf dims hm1) (yStepOf dims hm1) hm1 = Inr (hm2, o1, rebuilt res)"
    and ht: "hitTest r dims (xStepOf dims hm1) (yStepOf dims hm1) hm2 = Inr (hm', o2)"
    and os: "ops res = o1 @ o2" by blast
  note R = renderCache_Inr[OF rc]
  note H = hitTest_Inr[OF ht]
  from R have hm2: "hm2 = hm1\<lparr>cacheKey := currentKey dims hm, cachedMacro := cachedMacro hm2\<rparr>" by blast
  from H have hm': "hm' = hm2\<lparr>hovered := hovered hm'\<rparr>" by blast
  have cm: "cachedMacro hm' = cachedMacro hm2" by (subst hm') simp
  have ck: "cacheKey hm1 = cacheKey hm"
    using reaggregate_fields[OF re] pointerEvents_fields[of dims evs hm] by auto
  have m1: "cachedMacro hm1 = cachedMacro hm"
    using reaggregate_fields[OF re] pointerEvents_fields[of dims evs hm] by auto
  have e: "hm' = hm1\<lparr>cacheKey := currentKey dims hm, cachedMacro := cachedMacro hm', hovered := hovered hm'\<rparr>"
    by (subst hm', subst hm2) (simp add: cm)
  have f2: "data hm2 = data hm1" "numYBuckets hm2 = numYBuckets hm1" "pointer hm2 = pointer hm1"
    "hoverValid dims hm2 = hoverValid dims hm1"
    by (subst hm2, simp add: step_frame)+
  show ?thesis
  proof (rule that[OF re ny e, of o2])
    show "ops res = CallMacro (cachedMacro hm') # o2" using os R cm by simp
    show "rebuilt res \<longleftrightarrow> cacheKey hm \<noteq> currentKey dims hm" using R ck by simp
    show "\<not> rebuilt res \<longrightarrow> cachedMacro hm' = cachedMacro hm" using R cm m1 by simp
    show "rebuilt res \<longrightarrow> buildGeometry r dims (int (length (data hm1)) sdiv numYBuckets hm1)
        (xStepOf dims hm1) (yStepOf dims hm1) hm1 = Inr (cachedMacro hm')" using R cm by simp
    show "\<not> hoverValid dims hm1 \<longrightarrow> hovered hm' = noHover" using H f2 by simp
    show "hoverValid dims hm1 \<longrightarrow>
       (\<exists>x y. hoverIndex dims (xStepOf dims hm1) (yStepOf dims hm1) (pointer hm1) = Some (x, y)
          \<and> 0 \<le> x * numYBuckets hm1 + y \<and> x * numYBuckets hm1 + y < int (length (data hm1))
          \<and> Count (hovered hm') = data hm1 ! nat (x * numYBuckets hm1 + y))"
      using H f2 by simp
  qed
qed

lemma Layout_fields:
  assumes "Layout r dims evs hm = Inr (hm', res)"
  shows "cacheKey hm' = currentKey dims hm" "UseLinearColors hm' = UseLinearColors hm"
    "XBucketSize hm' = XBucketSize hm" "YBucketSize hm' = YBucketSize hm"
    "MaxY hm' = MaxY hm" "origData hm' = origData hm" "currentKey dims hm' = currentKey dims hm"
proof -
  from Layout_shape[OF assms] obtain hm1 where
    re: "reaggregate (currentKey dims hm) (pointerEvents dims evs hm) = Inr hm1"
    and e: "hm' = hm1\<lparr>cacheKey := currentKey dims hm, cachedMacro := cachedMacro hm', hovered := hovered hm'\<rparr>"
    by blast
  note F = reaggregate_fields[OF re]
  obtain p c where pe: "pointerEvents dims evs hm = hm\<lparr>pointer := p, pointerConstraint := c\<rparr>"
    using pointerEvents_fields by blast
  show "cacheKey hm' = currentKey dims hm" by (subst e) simp
  show u: "UseLinearColors hm' = UseLinearColors hm" using F pe by (subst e) simp
  show x: "XBucketSize hm' = XBucketSize hm" using F pe by (subst e) simp
  show y: "YBucketSize hm' = YBucketSize hm" using F pe by (subst e) simp
  show "MaxY hm' = MaxY hm" using F pe by (subst e) simp
  show "origData hm' = origData hm" using F pe by (subst e) simp
  show "currentKey dims hm' = currentKey dims hm" using u x y by (simp add: currentKey_def)
qed

lemma Layout_no_reaggregation:
  assumes "Layout r dims evs hm = Inr (hm', res)"
    and "xBucketSize (cacheKey hm) = XBucketSize hm" "yBucketSize (cacheKey hm) = YBucketSize hm"
  shows "data hm' = data hm" "linearSaturations hm' = linearSaturations hm"
    "rankedSaturations hm' = rankedSaturations hm" "numYBuckets hm' = numYBuckets hm"
    "numXBuckets hm' = numXBuckets hm"
proof -
  from Layout_shape[OF assms(1)] obtain hm1 where
    re: "reaggregate (currentKey dims hm) (pointerEvents dims evs hm) = Inr hm1"
    and e: "hm' = hm1\<lparr>cacheKey := currentKey dims hm, cachedMacro := cachedMacro hm', hovered := hovered hm'\<rparr>"
    by blast
  obtain p c where pe: "pointerEvents dims evs hm = hm\<lparr>pointer := p, pointerConstraint := c\<rparr>"
    using pointerEvents_fields by blast
  have "reaggregate (currentKey dims hm) (pointerEvents dims evs hm) = Inr (pointerEvents dims evs hm)"
    using assms(2,3) by (intro reaggregate_same_sizes) (simp_all add: pe currentKey_def)
  with re have h: "hm1 = hm\<lparr>pointer := p, pointerConstraint := c\<rparr>" using pe by simp
  show "data hm' = data hm" by (subst e) (simp add: h)
  show "linearSaturations hm' = linearSaturations hm" by (subst e) (simp add: h)
  show "rankedSaturations hm' = rankedSaturations hm" by (subst e) (simp add: h)
  show "numYBuckets hm' = numYBuckets hm" by (subst e) (simp add: h)
  show "numXBuckets hm' = numXBuckets hm" by (subst e) (simp add: h)
qed



lemma product_cells_in_range:
  assumes "ny \<noteq> 0" "(x, y) \<in> set (List.product [0..<nat (int n sdiv ny)] [0..<nat ny])"
  shows "0 \<le> int x * ny + int y \<and> int x * ny + int y < int n"
proof -
  from assms(2) have x: "x < nat (int n sdiv ny)" and y: "y < nat ny" by auto
  from y have ny: "0 < ny" by simp
  then have sd: "int n sdiv ny = int n div ny" by (simp add: sdiv_nonneg)
  with x have x': "int x + 1 \<le> int n div ny" by simp
  have "int x * ny + int y < (int x + 1) * ny" using y ny by (simp add: algebra_simps)
  also have "\<dots> \<le> (int n div ny) * ny" using x' ny by (intro mult_right_mono) simp_all
  also have "\<dots> \<le> int n"
    using div_mult_mod_eq[of "int n" ny] pos_mod_sign[OF ny, of "int n"] by linarith
  finally have "int x * ny + int y < int n" .
  moreover have "0 \<le> int x * ny + int y" using ny by simp
  ultimately show ?thesis by simp
qed

lemma cellLoop_total:
  assumes "\<forall>(x, y)\<in>set cs. 0 \<le> int x * ny + int y \<and> int x * ny + int y < int (length d)"
    and "length d \<le> length sats"
  shows "\<exists>paths. cellLoop rc ny d sats cs ps = Inr paths \<and> length paths = length ps"
  using assms(1)
proof (induction cs arbitrary: ps)
  case Nil
  then show ?case by simp
next
  case (Cons c cs)
  obtain x y where c: "c = (x, y)" by (cases c)
  from Cons.prems c have i: "0 \<le> int x * ny + int y" "int x * ny + int y < int (length d)" by auto
  from Cons.prems have rest: "\<forall>(x, y)\<in>set cs. 0 \<le> int x * ny + int y \<and> int x * ny + int y < int (length d)"
    by simp
  show ?case
  proof (cases "d ! nat (int x * ny + int y) = 0")
    case True
    with Cons.IH[OF rest, of ps] i show ?thesis by (simp add: c Let_def)
  next
    case False
    let ?s = "unat (sats ! nat (int x * ny + int y))"
    from Cons.IH[OF rest, of "ps[?s := ps ! ?s @ [rc (int x) (int y)]]"] i False assms(2)
    show ?thesis by (simp add: c Let_def)
  qed
qed

lemma fillCount_fillPaths: "fillCount (pre @ fillPaths paths @ post) = fillCount pre + 256 + fillCount post"
  by (simp add: fillCount_def fillPaths_def filter_map o_def)

lemma buildGeometry_shape:
  assumes "buildGeometry r dims nx xs ys hm = Inr m"
  shows "\<exists>paths. m = [ClipRectPush dims, ThemeFillWhite, EventOp] @ fillPaths paths @ [ClipPop]"
  using assms by (auto simp: buildGeometry_def Let_def split: sum.splits)

lemma buildGeometry_fillCount:
  assumes "buildGeometry r dims nx xs ys hm = Inr m"
  shows "fillCount m = 256"
proof -
  from buildGeometry_shape[OF assms] obtain paths where
    m: "m = [ClipRectPush dims, ThemeFillWhite, EventOp] @ fillPaths paths @ [ClipPop]" by blast
  show ?thesis unfolding m fillCount_fillPaths by (simp add: fillCount_def)
qed

lemma buildGeometry_total:
  assumes "numYBuckets hm \<noteq> 0"
    and "length (data hm) \<le> length (if UseLinearColors hm then linearSaturations hm else rankedSaturations hm)"
  shows "\<exists>m. buildGeometry r dims (int (length (data hm)) sdiv numYBuckets hm) xs ys hm = Inr m"
proof -
  let ?cs = "List.product [0..<nat (int (length (data hm)) sdiv numYBuckets hm)] [0..<nat (numYBuckets hm)]"
  have "\<forall>(x, y)\<in>set ?cs. 0 \<le> int x * numYBuckets hm + int y
          \<and> int x * numYBuckets hm + int y < int (length (data hm))"
    using product_cells_in_range[OF assms(1)] by blast
  from cellLoop_total[OF this assms(2), of "cellRect r dims xs ys" "replicate 256 []"]
  show ?thesis by (auto simp: buildGeometry_def Let_def)
qed

lemma hitTest_total:
  assumes "hoverValid dims hm \<longrightarrow>
       (\<exists>x y. hoverIndex dims xs ys (pointer hm) = Some (x, y)
          \<and> 0 \<le> x * numYBuckets hm + y \<and> x * numYBuckets hm + y < int (length (data hm)))"
  shows "\<exists>hm' o2. hitTest r dims xs ys hm = Inr (hm', o2)"
  using assms by (cases "hoverValid dims hm") (auto simp: hitTest_def Let_def)

lemma Layout_total:
  assumes re: "reaggregate (currentKey dims hm) (pointerEvents dims evs hm) = Inr hm1"
    and ny: "numYBuckets hm1 \<noteq> 0"
    and tb: "cacheKey hm = currentKey dims hm \<or> length (data hm1)
        \<le> length (if UseLinearColors hm1 then linearSaturations hm1 else rankedSaturations hm1)"
    and hv: "hoverValid dims hm1 \<longrightarrow>
       (\<exists>x y. hoverIndex dims (xStepOf dims hm1) (yStepOf dims hm1) (pointer hm1) = Some (x, y)
          \<and> 0 \<le> x * numYBuckets hm1 + y \<and> x * numYBuckets hm1 + y < int (length (data hm1)))"
  shows "\<exists>hm' res. Layout r dims evs hm = Inr (hm', res)"
proof -
  let ?key = "currentKey dims hm"
  let ?nx = "int (length (data hm1)) sdiv numYBuckets hm1"
  have ck: "cacheKey hm1 = cacheKey hm"
    using reaggregate_fields[OF re] pointerEvents_fields[of dims evs hm] by auto
  have "\<exists>hm2 o1 rb. renderCache r dims ?key ?nx (xStepOf dims hm1) (yStepOf dims hm1) hm1 = Inr (hm2, o1, rb)"
  proof (cases "cacheKey hm1 = ?key")
    case True
    then show ?thesis by (auto simp: renderCache_def)
  next
    case False
    with tb ck have "length (data hm1)
        \<le> length (if UseLinearColors hm1 then linearSaturations hm1 else rankedSaturations hm1)" by simp
    from buildGeometry_total[OF ny this, of r dims "xStepOf dims hm1" "yStepOf dims hm1"]
    show ?thesis using False by (auto simp: renderCache_def Let_def buildGeometry_frame)
  qed
  then obtain hm2 o1 rb where
    rc: "renderCache r dims ?key ?nx (xStepOf dims hm1) (yStepOf dims hm1) hm1 = Inr (hm2, o1, rb)"
    by blast
  from renderCache_Inr[OF rc] have hm2: "hm2 = hm1\<lparr>cacheKey := ?key, cachedMacro := cachedMacro hm2\<rparr>"
    by blast
  have f2: "data hm2 = data hm1" "numYBuckets hm2 = numYBuckets hm1" "pointer hm2 = pointer hm1"
    "hoverValid dims hm2 = hoverValid dims hm1"
    by (subst hm2, simp add: step_frame)+
  from hitTest_total[of dims hm2 "xStepOf dims hm1" "yStepOf dims hm1" r] hv
  obtain hm' o2 where ht: "hitTest r dims (xStepOf dims hm1) (yStepOf dims hm1) hm2 = Inr (hm', o2)"
    unfolding f2 by blast
  show ?thesis
    using re ny rc ht by (simp add: Layout_def Let_def currentKey_pointerEvents)
qed

section \<open>The example heatmap\<close>

lemma twoByTwo_SetData: "SetData [[0, 1]] (newHeatmap 2) = Inr twoByTwo"
  by (simp add: SetData_def twoByTwo_def newHeatmap_def)

lemma twoByTwo_reaggregate:
  "reaggregate (currentKey frame twoByTwo) (pointerEvents frame [] twoByTwo)
     = Inr (aggregated \<lparr>X = Fin 0, Y = Fin 0\<rparr> \<lparr>X = 0, Y = 0\<rparr>)"
  by code_simp

lemma twoByTwo_reaggregate_ev:
  "reaggregate (currentKey frame twoByTwo) (pointerEvents frame [\<lparr>X = Fin a, Y = Fin b\<rparr>] twoByTwo)
     = Inr (aggregated \<lparr>X = Fin a, Y = Fin b\<rparr> frame)"
proof -
  have "pointerEvents frame [\<lparr>X = Fin a, Y = Fin b\<rparr>] twoByTwo
      = (pointerEvents frame [] twoByTwo)\<lparr>pointer := \<lparr>X = Fin a, Y = Fin b\<rparr>, pointerConstraint := frame\<rparr>"
    by simp
  moreover have "reaggregate k (hm\<lparr>pointer := p, pointerConstraint := c\<rparr>)
      = (case reaggregate k hm of Inl e \<Rightarrow> Inl e | Inr h \<Rightarrow> Inr (h\<lparr>pointer := p, pointerConstraint := c\<rparr>))"
    for k hm p c
    by (auto simp: reaggregate_def computeBuckets_def computeSaturations_def Let_def
        split: list.splits option.splits sum.splits prod.splits)
  moreover have "reaggregate (currentKey frame twoByTwo) (pointerEvents frame [] twoByTwo)
      = Inr (aggregated \<lparr>X = Fin 0, Y = Fin 0\<rparr> \<lparr>X = 0, Y = 0\<rparr>)"
    by (rule twoByTwo_reaggregate)
  moreover have "(aggregated \<lparr>X = Fin 0, Y = Fin 0\<rparr> \<lparr>X = 0, Y = 0\<rparr>)
        \<lparr>pointer := \<lparr>X = Fin a, Y = Fin b\<rparr>, pointerConstraint := frame\<rparr>
      = aggregated \<lparr>X = Fin a, Y = Fin b\<rparr> frame"
    by (simp add: aggregated_def)
  ultimately show ?thesis by simp
qed

lemma aggregated_fields:
  "numYBuckets (aggregated p c) = 2" "data (aggregated p c) = [1, 0, 0, 1]"
  "linearSaturations (aggregated p c) = [255, 1, 1, 255]"
  "rankedSaturations (aggregated p c) = [255, 127, 127, 255]"
  "pointer (aggregated p c) = p" "pointerConstraint (aggregated p c) = c"
  "UseLinearColors (aggregated p c) = False" "cacheKey (aggregated p c) = zeroKey"
  "XBucketSize (aggregated p c) = 100000000" "YBucketSize (aggregated p c) = 1"
  by (simp_all add: aggregated_def twoByTwo_def newHeatmap_def)

lemma aggregated_steps:
  "xStepOf frame (aggregated p c) = Fin 1" "yStepOf frame (aggregated p c) = Fin 1"
  unfolding xStepOf_def yStepOf_def aggregated_fields frame_def by code_simp+

lemma frame_not_zero: "frame \<noteq> \<lparr>X = 0, Y = 0\<rparr>"
  by (simp add: frame_def)

lemma twoByTwo_key: "cacheKey twoByTwo \<noteq> currentKey frame twoByTwo"
  by (simp add: twoByTwo_def newHeatmap_def currentKey_def zeroKey_def frame_def)


lemma twoByTwo_Layout_idle: "\<exists>hm' res. Layout r frame [] twoByTwo = Inr (hm', res)"
  by (rule Layout_total[OF twoByTwo_reaggregate])
     (simp_all add: aggregated_fields hoverValid_def frame_def)

section \<open>Claims about the hit test\<close>

lemma Layout_hover_panic:
  assumes re: "reaggregate (currentKey dims hm) (pointerEvents dims evs hm) = Inr hm1"
    and ny: "numYBuckets hm1 \<noteq> 0"
    and tb: "cacheKey hm = currentKey dims hm \<or> length (data hm1)
        \<le> length (if UseLinearColors hm1 then linearSaturations hm1 else rankedSaturations hm1)"
    and hv: "hoverValid dims hm1"
    and hi: "hoverIndex dims (xStepOf dims hm1) (yStepOf dims hm1) (pointer hm1) = Some (x, y)"
    and out: "x * numYBuckets hm1 + y < 0 \<or> int (length (data hm1)) \<le> x * numYBuckets hm1 + y"
  shows "Layout r dims evs hm = Inl IndexOutOfRange"
proof -
  let ?key = "currentKey dims hm"
  let ?nx = "int (length (data hm1)) sdiv numYBuckets hm1"
  have ck: "cacheKey hm1 = cacheKey hm"
    using reaggregate_fields[OF re] pointerEvents_fields[of dims evs hm] by auto
  have "\<exists>hm2 o1 rb. renderCache r dims ?key ?nx (xStepOf dims hm1) (yStepOf dims hm1) hm1 = Inr (hm2, o1, rb)"
  proof (cases "cacheKey hm1 = ?key")
    case True
    then show ?thesis by (auto simp: renderCache_def)
  next
    case False
    with tb ck have "length (data hm1)
        \<le> length (if UseLinearColors hm1 then linearSaturations hm1 else rankedSaturations hm1)" by simp
    from buildGeometry_total[OF ny this, of r dims "xStepOf dims hm1" "yStepOf dims hm1"]
    show ?thesis using False by (auto simp: renderCache_def Let_def buildGeometry_frame)
  qed
  then obtain hm2 o1 rb where
    rc: "renderCache r dims ?key ?nx (xStepOf dims hm1) (yStepOf dims hm1) hm1 = Inr (hm2, o1, rb)"
    by blast
  from renderCache_Inr[OF rc] have hm2: "hm2 = hm1\<lparr>cacheKey := ?key, cachedMacro := cachedMacro hm2\<rparr>"
    by blast
  have f2: "data hm2 = data hm1" "numYBuckets hm2 = numYBuckets hm1" "pointer hm2 = pointer hm1"
    "hoverValid dims hm2 = hoverValid dims hm1"
    by (subst hm2, simp add: step_frame)+
  have "hitTest r dims (xStepOf dims hm1) (yStepOf dims hm1) hm2 = Inl IndexOutOfRange"
    using hv hi out by (auto simp: hitTest_def f2 Let_def)
  then show ?thesis
    using re ny rc by (simp add: Layout_def Let_def currentKey_pointerEvents)
qed




lemma hover_out_example:
  "hoverValid frame (aggregated \<lparr>X = Fin 2, Y = Fin 1\<rparr> frame)"
  "hoverIndex frame (Fin 1) (Fin 1) \<lparr>X = Fin 2, Y = Fin 1\<rparr> = Some (2, 1)"
  unfolding hoverValid_def aggregated_fields frame_def by code_simp+

text \<open>
  Claim C3 fails on the code: the pointer at \<open>(2, 1)\<close> in a viewport of width 2 passes the
  guard (\<open>X \<le> width\<close>), its column index is \<open>int(2 / 1) = 2 = numXBuckets\<close>, and the
  lookup \<open>hm.data[2*2 + 1]\<close> in a grid of 4 cells panics.
\<close>

theorem hover_at_right_edge_panics:
  "hoverValid frame (pointerEvents frame [\<lparr>X = Fin 2, Y = Fin 1\<rparr>] twoByTwo)
   \<and> Layout id frame [\<lparr>X = Fin 2, Y = Fin 1\<rparr>] twoByTwo = Inl IndexOutOfRange"
proof -
  let ?e = "\<lparr>X = Fin 2, Y = Fin 1\<rparr>"
  have "hoverValid frame (pointerEvents frame [?e] twoByTwo) = hoverValid frame (aggregated ?e frame)"
    by (simp add: hoverValid_def aggregated_fields)
  then have v: "hoverValid frame (pointerEvents frame [?e] twoByTwo)"
    using hover_out_example(1) by simp
  have "Layout id frame [?e] twoByTwo = Inl IndexOutOfRange"
    by (rule Layout_hover_panic[OF twoByTwo_reaggregate_ev, where x = 2 and y = 1])
       (simp_all add: aggregated_fields aggregated_steps hover_out_example)
  with v show ?thesis by simp
qed



lemma Layout_example_idle_state:
  assumes "Layout r frame [] twoByTwo = Inr (hm', res)"
  shows "hm' = (aggregated \<lparr>X = Fin 0, Y = Fin 0\<rparr> \<lparr>X = 0, Y = 0\<rparr>)
           \<lparr>cacheKey := currentKey frame twoByTwo, cachedMacro := cachedMacro hm', hovered := hovered hm'\<rparr>"
proof -
  from Layout_shape[OF assms] obtain hm1 where
    re: "reaggregate (currentKey frame twoByTwo) (pointerEvents frame [] twoByTwo) = Inr hm1"
    and e: "hm' = hm1\<lparr>cacheKey := currentKey frame twoByTwo, cachedMacro := cachedMacro hm', hovered := hovered hm'\<rparr>"
    by blast
  from re have "hm1 = aggregated \<lparr>X = Fin 0, Y = Fin 0\<rparr> \<lparr>X = 0, Y = 0\<rparr>"
    by (simp only: twoByTwo_reaggregate sum.inject)
  with e show ?thesis by simp
qed


section \<open>Claims about the render cache\<close>

lemma Layout_again_total:
  assumes first: "Layout r dims evs hm = Inr (hm1, res1)"
    and key: "currentKey dims hmB = cacheKey hm1 \<or> length (data hm1)
        \<le> length (if UseLinearColors hmB then linearSaturations hm1 else rankedSaturations hm1)"
    and B: "hmB = hm1\<lparr>UseLinearColors := UseLinearColors hmB\<rparr>"
    and nh: "pointerConstraint hm1 \<noteq> dims"
  shows "\<exists>hm2 res2. Layout r dims [] hmB = Inr (hm2, res2)"
proof -
  note F = Layout_fields[OF first]
  from first obtain hm0 where
    "reaggregate (currentKey dims hm) (pointerEvents dims evs hm) = Inr hm0"
    and ny0: "numYBuckets hm0 \<noteq> 0"
    and e: "hm1 = hm0\<lparr>cacheKey := currentKey dims hm, cachedMacro := cachedMacro hm1, hovered := hovered hm1\<rparr>"
    by (rule Layout_shape)
  have ny: "numYBuckets hm1 \<noteq> 0" using ny0 by (subst e) simp
  have fB: "numYBuckets hmB = numYBuckets hm1" "data hmB = data hm1" "cacheKey hmB = cacheKey hm1"
    "linearSaturations hmB = linearSaturations hm1" "rankedSaturations hmB = rankedSaturations hm1"
    "XBucketSize hmB = XBucketSize hm1" "YBucketSize hmB = YBucketSize hm1"
    "pointerConstraint hmB = pointerConstraint hm1"
    by (subst B, simp)+
  have re: "reaggregate (currentKey dims hmB) (pointerEvents dims [] hmB) = Inr hmB"
    using F(1,3,4) fB by (simp add: reaggregate_def currentKey_def)
  show ?thesis
  proof (rule Layout_total[OF re])
    show "numYBuckets hmB \<noteq> 0" using ny fB by simp
    show "cacheKey hmB = currentKey dims hmB \<or> length (data hmB)
        \<le> length (if UseLinearColors hmB then linearSaturations hmB else rankedSaturations hmB)"
      using key fB by auto
    show "hoverValid dims hmB \<longrightarrow>
       (\<exists>x y. hoverIndex dims (xStepOf dims hmB) (yStepOf dims hmB) (pointer hmB) = Some (x, y)
          \<and> 0 \<le> x * numYBuckets hmB + y \<and> x * numYBuckets hmB + y < int (length (data hmB)))"
      using nh fB by (simp add: hoverValid_def)
  qed
qed

text \<open>
  Claim C5: a second \<open>Layout\<close> with the same cache key performs no geometry rebuild and
  replays the stored geometry; a \<open>Layout\<close> whose key differs from the stored key rebuilds
  the geometry, and the new key and geometry replace the old ones.
\<close>

theorem layout_cache_reuse_and_rebuild:
  "(Layout r dims evs1 hm = Inr (hm1, res1) \<and> Layout r dims evs2 hm1 = Inr (hm2, res2) \<longrightarrow>
      \<not> rebuilt res2 \<and> cacheKey hm2 = cacheKey hm1 \<and> cachedMacro hm2 = cachedMacro hm1
      \<and> data hm2 = data hm1 \<and> take 1 (ops res2) = [CallMacro (cachedMacro hm1)])
   \<and> (Layout r dims evs hm = Inr (hm', res) \<and> cacheKey hm \<noteq> currentKey dims hm \<longrightarrow>
      rebuilt res \<and> cacheKey hm' = currentKey dims hm
      \<and> buildGeometry r dims (int (length (data hm')) sdiv numYBuckets hm')
           (xStepOf dims hm') (yStepOf dims hm') hm' = Inr (cachedMacro hm')
      \<and> take 1 (ops res) = [CallMacro (cachedMacro hm')])"
proof (intro conjI impI)
  assume a: "Layout r dims evs1 hm = Inr (hm1, res1) \<and> Layout r dims evs2 hm1 = Inr (hm2, res2)"
  then have L1: "Layout r dims evs1 hm = Inr (hm1, res1)"
    and L2: "Layout r dims evs2 hm1 = Inr (hm2, res2)" by simp_all
  note F1 = Layout_fields[OF L1] and F2 = Layout_fields[OF L2]
  have same: "cacheKey hm1 = currentKey dims hm1" using F1(1,7) by simp
  from L2 obtain h o2 where
    "reaggregate (currentKey dims hm1) (pointerEvents dims evs2 hm1) = Inr h"
    "numYBuckets h \<noteq> 0"
    "hm2 = h\<lparr>cacheKey := currentKey dims hm1, cachedMacro := cachedMacro hm2, hovered := hovered hm2\<rparr>"
    and o: "ops res2 = CallMacro (cachedMacro hm2) # o2"
    and rb: "rebuilt res2 \<longleftrightarrow> cacheKey hm1 \<noteq> currentKey dims hm1"
    and keep: "\<not> rebuilt res2 \<longrightarrow> cachedMacro hm2 = cachedMacro hm1"
    by (rule Layout_shape)
  have nrb: "\<not> rebuilt res2" using rb same by simp
  have sz: "xBucketSize (cacheKey hm1) = XBucketSize hm1" "yBucketSize (cacheKey hm1) = YBucketSize hm1"
    unfolding same by (simp_all add: currentKey_def)
  show "\<not> rebuilt res2" by (rule nrb)
  show "cacheKey hm2 = cacheKey hm1" using F2(1) same by simp
  show "cachedMacro hm2 = cachedMacro hm1" using keep nrb by simp
  show "data hm2 = data hm1" by (rule Layout_no_reaggregation(1)[OF L2 sz])
  show "take 1 (ops res2) = [CallMacro (cachedMacro hm1)]" using o keep nrb by simp
next
  assume a: "Layout r dims evs hm = Inr (hm', res) \<and> cacheKey hm \<noteq> currentKey dims hm"
  then have L: "Layout r dims evs hm = Inr (hm', res)" and ne: "cacheKey hm \<noteq> currentKey dims hm"
    by simp_all
  from L obtain h o2 where
    "reaggregate (currentKey dims hm) (pointerEvents dims evs hm) = Inr h"
    "numYBuckets h \<noteq> 0"
    and e: "hm' = h\<lparr>cacheKey := currentKey dims hm, cachedMacro := cachedMacro hm', hovered := hovered hm'\<rparr>"
    and o: "ops res = CallMacro (cachedMacro hm') # o2"
    and rb: "rebuilt res \<longleftrightarrow> cacheKey hm \<noteq> currentKey dims hm"
    and "\<not> rebuilt res \<longrightarrow> cachedMacro hm' = cachedMacro hm"
    and bg: "rebuilt res \<longrightarrow> buildGeometry r dims (int (length (data h)) sdiv numYBuckets h)
        (xStepOf dims h) (yStepOf dims h) h = Inr (cachedMacro hm')"
    by (rule Layout_shape)
  have f: "data hm' = data h" "numYBuckets hm' = numYBuckets h" "xStepOf dims hm' = xStepOf dims h"
    "yStepOf dims hm' = yStepOf dims h"
    by (subst e, simp add: step_frame)+
  have g: "buildGeometry r dims nx xs ys hm' = buildGeometry r dims nx xs ys h" for nx xs ys
    by (subst e) (simp add: buildGeometry_def)
  show "rebuilt res" using rb ne by simp
  then show "buildGeometry r dims (int (length (data hm')) sdiv numYBuckets hm')
           (xStepOf dims hm') (yStepOf dims hm') hm' = Inr (cachedMacro hm')"
    using bg unfolding f g by simp
  show "cacheKey hm' = currentKey dims hm" by (rule Layout_fields(1)[OF L])
  show "take 1 (ops res) = [CallMacro (cachedMacro hm')]" using o by simp
qed

theorem layout_cache_reuse_and_rebuild_witness:
  "\<exists>hm1 res1 hm2 res2. Layout id frame [] twoByTwo = Inr (hm1, res1)
      \<and> Layout id frame [] hm1 = Inr (hm2, res2)
      \<and> \<not> rebuilt res2 \<and> cachedMacro hm2 = cachedMacro hm1 \<and> cacheKey hm2 = cacheKey hm1
      \<and> cacheKey twoByTwo \<noteq> currentKey frame twoByTwo
      \<and> rebuilt res1 \<and> cacheKey hm1 = currentKey frame twoByTwo"
proof -
  from twoByTwo_Layout_idle[of id] obtain hm1 res1 where
    L1: "Layout id frame [] twoByTwo = Inr (hm1, res1)" by blast
  note S = Layout_example_idle_state[OF L1]
  have pc: "pointerConstraint hm1 \<noteq> frame"
    by (subst S) (simp add: aggregated_fields frame_def)
  have k: "currentKey frame hm1 = cacheKey hm1" using Layout_fields(1,7)[OF L1] by simp
  from Layout_again_total[OF L1 _ _ pc, of hm1] k obtain hm2 res2 where
    L2: "Layout id frame [] hm1 = Inr (hm2, res2)" by auto
  note T = layout_cache_reuse_and_rebuild[of id frame "[]" twoByTwo hm1 res1 "[]" hm2 res2 "[]" hm1 res1]
  from T L1 L2 have "\<not> rebuilt res2" "cachedMacro hm2 = cachedMacro hm1" "cacheKey hm2 = cacheKey hm1"
    by simp_all
  moreover from T L1 twoByTwo_key have "rebuilt res1" "cacheKey hm1 = currentKey frame twoByTwo"
    by simp_all
  ultimately show ?thesis using L1 L2 twoByTwo_key by blast
qed

text \<open>
  Against claim C7 as stated: the first \<open>Layout\<close> of a grid whose two non-empty cells share
  the single saturation 255 rebuilds the cache and emits 256 fill operations, not one.
\<close>

theorem one_saturation_counterexample:
  "rebuilt (resultAfter id frame [] twoByTwo)
   \<and> distinctUsed (stateAfter id frame [] twoByTwo) = [255]
   \<and> fillCount (cachedMacro (stateAfter id frame [] twoByTwo)) = 256"
proof -
  from twoByTwo_Layout_idle[of id] obtain hm' res where
    L: "Layout id frame [] twoByTwo = Inr (hm', res)" by blast
  have s: "stateAfter id frame [] twoByTwo = hm'" "resultAfter id frame [] twoByTwo = res"
    using L by (simp_all add: stateAfter_def resultAfter_def)
  note S = Layout_example_idle_state[OF L]
  from L obtain h o2 where
    "reaggregate (currentKey frame twoByTwo) (pointerEvents frame [] twoByTwo) = Inr h"
    "numYBuckets h \<noteq> 0"
    "hm' = h\<lparr>cacheKey := currentKey frame twoByTwo, cachedMacro := cachedMacro hm', hovered := hovered hm'\<rparr>"
    "ops res = CallMacro (cachedMacro hm') # o2"
    and rb: "rebuilt res \<longleftrightarrow> cacheKey twoByTwo \<noteq> currentKey frame twoByTwo"
    and "\<not> rebuilt res \<longrightarrow> cachedMacro hm' = cachedMacro twoByTwo"
    and bg: "rebuilt res \<longrightarrow> buildGeometry id frame (int (length (data h)) sdiv numYBuckets h)
        (xStepOf frame h) (yStepOf frame h) h = Inr (cachedMacro hm')"
    by (rule Layout_shape)
  have r: "rebuilt res" using rb twoByTwo_key by simp
  have "distinctUsed hm' = [255]"
    by (subst S) (simp add: distinctUsed_def aggregated_fields)
  moreover have "fillCount (cachedMacro hm') = 256"
    using bg r by (auto dest: buildGeometry_fillCount)
  ultimately show ?thesis using r s by simp
qed

text \<open>
  Claim C7, amended: a cache rebuild emits exactly 256 fill operations, one for each possible
  saturation value 0 to 255 whether or not a cell uses it, and therefore never more than
  256, whatever the grid resolution.
\<close>

theorem rebuild_emits_256_fills:
  assumes "Layout r dims evs hm = Inr (hm', res)" "rebuilt res"
  shows "fillCount (cachedMacro hm') = 256
       \<and> (\<exists>paths. cachedMacro hm' = [ClipRectPush dims, ThemeFillWhite, EventOp] @ fillPaths paths @ [ClipPop])"
proof -
  from assms(1) obtain h o2 where
    "reaggregate (currentKey dims hm) (pointerEvents dims evs hm) = Inr h"
    "numYBuckets h \<noteq> 0"
    "hm' = h\<lparr>cacheKey := currentKey dims hm, cachedMacro := cachedMacro hm', hovered := hovered hm'\<rparr>"
    "ops res = CallMacro (cachedMacro hm') # o2"
    "rebuilt res \<longleftrightarrow> cacheKey hm \<noteq> currentKey dims hm"
    "\<not> rebuilt res \<longrightarrow> cachedMacro hm' = cachedMacro hm"
    and bg: "rebuilt res \<longrightarrow> buildGeometry r dims (int (length (data h)) sdiv numYBuckets h)
        (xStepOf dims h) (yStepOf dims h) h = Inr (cachedMacro hm')"
    by (rule Layout_shape)
  from bg assms(2) have b: "buildGeometry r dims (int (length (data h)) sdiv numYBuckets h)
        (xStepOf dims h) (yStepOf dims h) h = Inr (cachedMacro hm')" by simp
  from buildGeometry_fillCount[OF b] buildGeometry_shape[OF b] show ?thesis by simp
qed

theorem rebuild_emits_256_fills_witness:
  "\<exists>hm' res. Layout id frame [] twoByTwo = Inr (hm', res) \<and> rebuilt res
      \<and> fillCount (cachedMacro hm') = 256"
proof -
  from twoByTwo_Layout_idle[of id] obtain hm' res where
    L: "Layout id frame [] twoByTwo = Inr (hm', res)" by blast
  from L obtain h o2 where
    "reaggregate (currentKey frame twoByTwo) (pointerEvents frame [] twoByTwo) = Inr h"
    "numYBuckets h \<noteq> 0"
    "hm' = h\<lparr>cacheKey := currentKey frame twoByTwo, cachedMacro := cachedMacro hm', hovered := hovered hm'\<rparr>"
    "ops res = CallMacro (cachedMacro hm') # o2"
    and rb: "rebuilt res \<longleftrightarrow> cacheKey twoByTwo \<noteq> currentKey frame twoByTwo"
    by (rule Layout_shape)
  have r: "rebuilt res" using rb twoByTwo_key by simp
  from rebuild_emits_256_fills[OF L r] L r show ?thesis by blast
qed

text \<open>
  Claim C10: when two consecutive \<open>Layout\<close> calls differ only in \<open>UseLinearColors\<close>, the
  second call leaves the grid and both saturation tables unchanged; the toggle only rebuilds
  the geometry, through the cache key.
\<close>

theorem color_toggle_keeps_tables:
  assumes "Layout r dims evs1 hm = Inr (hm1, res1)"
    and "Layout r dims evs2 (hm1\<lparr>UseLinearColors := b\<rparr>) = Inr (hm2, res2)"
  shows "data hm2 = data hm1 \<and> linearSaturations hm2 = linearSaturations hm1
       \<and> rankedSaturations hm2 = rankedSaturations hm1 \<and> numYBuckets hm2 = numYBuckets hm1
       \<and> (b \<noteq> UseLinearColors hm1 \<longrightarrow> rebuilt res2)"
proof -
  let ?h = "hm1\<lparr>UseLinearColors := b\<rparr>"
  note F1 = Layout_fields[OF assms(1)]
  have ck: "cacheKey ?h = currentKey dims hm1" using F1(1,7) by simp
  have sz: "xBucketSize (cacheKey ?h) = XBucketSize ?h" "yBucketSize (cacheKey ?h) = YBucketSize ?h"
    unfolding ck by (simp_all add: currentKey_def)
  note N = Layout_no_reaggregation[OF assms(2) sz]
  from assms(2) obtain h o2 where
    "reaggregate (currentKey dims ?h) (pointerEvents dims evs2 ?h) = Inr h"
    "numYBuckets h \<noteq> 0"
    "hm2 = h\<lparr>cacheKey := currentKey dims ?h, cachedMacro := cachedMacro hm2, hovered := hovered hm2\<rparr>"
    "ops res2 = CallMacro (cachedMacro hm2) # o2"
    and rb: "rebuilt res2 \<longleftrightarrow> cacheKey ?h \<noteq> currentKey dims ?h"
    by (rule Layout_shape)
  have "b \<noteq> UseLinearColors hm1 \<longrightarrow> rebuilt res2"
    unfolding rb ck by (auto simp: currentKey_def)
  with N show ?thesis by simp
qed

theorem color_toggle_keeps_tables_witness:
  "\<exists>hm1 res1 hm2 res2. Layout id frame [] twoByTwo = Inr (hm1, res1)
      \<and> Layout id frame [] (hm1\<lparr>UseLinearColors := True\<rparr>) = Inr (hm2, res2)
      \<and> UseLinearColors hm1 = False
      \<and> data hm2 = [1, 0, 0, 1] \<and> linearSaturations hm2 = [255, 1, 1, 255]
      \<and> rankedSaturations hm2 = [255, 127, 127, 255] \<and> rebuilt res2"
proof -
  from twoByTwo_Layout_idle[of id] obtain hm1 res1 where
    L1: "Layout id frame [] twoByTwo = Inr (hm1, res1)" by blast
  note S = Layout_example_idle_state[OF L1]
  have f: "data hm1 = [1, 0, 0, 1]" "linearSaturations hm1 = [255, 1, 1, 255]"
    "rankedSaturations hm1 = [255, 127, 127, 255]" "UseLinearColors hm1 = False"
    by (subst S, simp add: aggregated_fields)+
  have pc: "pointerConstraint hm1 \<noteq> frame"
    by (subst S) (simp add: aggregated_fields frame_def)
  from Layout_again_total[OF L1 _ _ pc, of "hm1\<lparr>UseLinearColors := True\<rparr>"] f
  obtain hm2 res2 where
    L2: "Layout id frame [] (hm1\<lparr>UseLinearColors := True\<rparr>) = Inr (hm2, res2)" by auto
  from color_toggle_keeps_tables[OF L1 L2] f L1 L2 show ?thesis by auto
qed

end
